theory Spec2Isabelle
  imports Main "HOL-Library.AList"
begin

section \<open>Python values and errors\<close>

text \<open>Object identities of models, documents and callables (Python compares
  them with \<open>is\<close> and hashes them by identity).\<close>

type_synonym model_ref = nat
type_synonym doc_ref = nat
type_synonym cb_ref = nat

text \<open>The exceptions raised in \<open>document.py\<close>.\<close>

datatype error = ValueError | KeyError | AttributeError | RuntimeError | DeserializationError

text \<open>An argument as Python passes it: \<open>None\<close>, a \<open>set\<close>, or any other value.\<close>

datatype 'v pyarg = ArgNone | ArgSet "'v list" | ArgVal 'v

section \<open>The multi-valued dictionary\<close>

text \<open>What \<open>_MultiValuedDict._dict\<close> stores under a key: the value itself, or a
  Python \<open>set\<close> of values (a list without duplicates, in the set's iteration
  order).\<close>

datatype 'v slot = Single 'v | Many "'v list"

type_synonym ('k, 'v) MultiValuedDict = "'k \<Rightarrow> 'v slot option"

definition add_value ::
  "'k option \<Rightarrow> 'v pyarg \<Rightarrow> ('k, 'v) MultiValuedDict \<Rightarrow> error + ('k, 'v) MultiValuedDict" where
  "add_value key val d =
     (case key of
        None \<Rightarrow> Inl ValueError
      | Some k \<Rightarrow>
          (case val of
             ArgNone \<Rightarrow> Inl ValueError
           | ArgSet _ \<Rightarrow> Inl ValueError
           | ArgVal v \<Rightarrow>
               (case d k of
                  None \<Rightarrow> Inr (d(k \<mapsto> Single v))
                | Some (Many xs) \<Rightarrow> Inr (d(k \<mapsto> Many (List.insert v xs)))
                | Some (Single e) \<Rightarrow> Inr (d(k \<mapsto> Many (List.insert v [e]))))))"

text \<open>\<open>existing == value\<close> where \<open>existing\<close> is \<open>None\<close> or a stored scalar.\<close>

fun py_eq :: "'v option \<Rightarrow> 'v pyarg \<Rightarrow> bool" where
  "py_eq None ArgNone = True"
| "py_eq (Some e) (ArgVal v) = (e = v)"
| "py_eq _ _ = False"

text \<open>\<open>existing.discard(value)\<close>: only a stored value can be found; \<open>None\<close> and
  sets are never stored, so discarding them finds nothing.\<close>

definition discard :: "'v pyarg \<Rightarrow> 'v list \<Rightarrow> 'v list" where
  "discard val xs = (case val of ArgVal v \<Rightarrow> removeAll v xs | _ \<Rightarrow> xs)"

definition remove_value ::
  "'k option \<Rightarrow> 'v pyarg \<Rightarrow> ('k, 'v) MultiValuedDict \<Rightarrow> error + ('k, 'v) MultiValuedDict" where
  "remove_value key val d =
     (case key of
        None \<Rightarrow> Inl ValueError
      | Some k \<Rightarrow>
          (case d k of
             Some (Many xs) \<Rightarrow>
               (let xs' = discard val xs
                in if length xs' = 0 then Inr (d(k := None))
                   else Inr (d(k \<mapsto> Many xs')))
           | Some (Single e) \<Rightarrow>
               (if py_eq (Some e) val then Inr (d(k := None)) else Inr d)
           | None \<Rightarrow>
               (if py_eq None val then Inl KeyError else Inr d)))"

text \<open>\<open>_MultiValuedDict.__init__\<close>: the empty dictionary.\<close>

definition MultiValuedDict_init :: "('k, 'v) MultiValuedDict" where
  "MultiValuedDict_init = (\<lambda>k. None)"

definition get_one :: "('k, 'v) MultiValuedDict \<Rightarrow> 'k \<Rightarrow> error + 'v option" where
  "get_one d k =
     (case d k of
        Some (Many xs) \<Rightarrow> (if length xs = 1 then Inr (Some (hd xs)) else Inl ValueError)
      | Some (Single e) \<Rightarrow> Inr (Some e)
      | None \<Rightarrow> Inr None)"

definition get_all :: "('k, 'v) MultiValuedDict \<Rightarrow> 'k \<Rightarrow> 'v list" where
  "get_all d k =
     (case d k of
        None \<Rightarrow> []
      | Some (Many xs) \<Rightarrow> xs
      | Some (Single e) \<Rightarrow> [e])"

text \<open>The calls \<open>add_value(k, v); remove_value(k, v); get_all(k)\<close> in sequence, an
  exception ending the sequence.\<close>

definition add_remove_get_all ::
  "'k \<Rightarrow> 'v \<Rightarrow> ('k, 'v) MultiValuedDict \<Rightarrow> error + 'v list" where
  "add_remove_get_all k v d =
     (case add_value (Some k) (ArgVal v) d of
        Inl err \<Rightarrow> Inl err
      | Inr d1 \<Rightarrow>
          (case remove_value (Some k) (ArgVal v) d1 of
             Inl err \<Rightarrow> Inl err
           | Inr d2 \<Rightarrow> Inr (get_all d2 k)))"

section \<open>Values, session callbacks and events\<close>

text \<open>A Python value as it occurs in a property of a model or in decoded JSON:
  \<open>PModel m\<close> is the model object \<open>m\<close>, \<open>PRef i t\<close> is the reference dictionary
  \<open>{'id': i, 'type': t}\<close>.\<close>

datatype pyvalue =
    PNone
  | PInt int
  | PStr string
  | PModel model_ref
  | PRef string string
  | PList "pyvalue list"

text \<open>\<open>PeriodicCallback\<close> and \<open>TimeoutCallback\<close>, with the period or the timeout.\<close>

datatype callback_class = PeriodicCallback int | TimeoutCallback int

text \<open>The fields that \<open>SessionCallback.__init__\<close> and its subclasses assign:
  \<open>_id\<close>, \<open>_document\<close>, \<open>_callback\<close> (the user's callable, wrapped to run with the
  document as current document) and \<open>_period\<close> or \<open>_timeout\<close>.\<close>

record SessionCallback =
  sc_id :: string
  sc_document :: doc_ref
  sc_callback :: cb_ref
  sc_class :: callback_class

text \<open>The names an instance answers to: the fields above, and the properties and
  methods its class defines.\<close>

definition attributes :: "SessionCallback \<Rightarrow> string list" where
  "attributes h =
     [''_id'', ''_document'', ''_callback'', ''id'', ''callback'', ''remove''] @
     (case sc_class h of
        PeriodicCallback _ \<Rightarrow> [''_period'', ''period'']
      | TimeoutCallback _ \<Rightarrow> [''_timeout'', ''timeout''])"

text \<open>A key of the table \<open>Document._session_callbacks\<close>: a callable of the user, or
  any other object handed in as one, such as a handle.\<close>

datatype pykey = Callable cb_ref | Handle SessionCallback

datatype event =
    DocumentChangedEvent doc_ref
  | DocumentPatchedEvent doc_ref
  | ModelChangedEvent doc_ref model_ref string pyvalue pyvalue
  | TitleChangedEvent doc_ref string
  | RootAddedEvent doc_ref model_ref
  | RootRemovedEvent doc_ref model_ref
  | SessionCallbackAdded doc_ref SessionCallback
  | SessionCallbackRemoved doc_ref SessionCallback

fun document :: "event \<Rightarrow> doc_ref" where
  "document (DocumentChangedEvent d) = d"
| "document (DocumentPatchedEvent d) = d"
| "document (ModelChangedEvent d _ _ _ _) = d"
| "document (TitleChangedEvent d _) = d"
| "document (RootAddedEvent d _) = d"
| "document (RootRemovedEvent d _) = d"
| "document (SessionCallbackAdded d _) = d"
| "document (SessionCallbackRemoved d _) = d"

subsection \<open>Dispatch to a receiver\<close>

text \<open>A receiver is known by the method names it has (\<open>hasattr\<close>); calling a method
  it has is recorded with the event passed, calling one it lacks raises
  \<open>AttributeError\<close>.\<close>

type_synonym receiver = "string list"
type_synonym calls = "(string \<times> event) list"

definition hasattr :: "receiver \<Rightarrow> string \<Rightarrow> bool" where
  "hasattr receiver name = (name \<in> set receiver)"

definition call_method :: "receiver \<Rightarrow> string \<Rightarrow> event \<Rightarrow> calls \<Rightarrow> error + calls" where
  "call_method receiver name e log =
     (if hasattr receiver name then Inr (log @ [(name, e)]) else Inl AttributeError)"

definition DocumentChangedEvent_dispatch :: "event \<Rightarrow> receiver \<Rightarrow> calls \<Rightarrow> error + calls" where
  "DocumentChangedEvent_dispatch e receiver log =
     (if hasattr receiver ''_document_changed''
      then call_method receiver ''_document_changed'' e log
      else Inr log)"

definition DocumentPatchedEvent_dispatch :: "event \<Rightarrow> receiver \<Rightarrow> calls \<Rightarrow> error + calls" where
  "DocumentPatchedEvent_dispatch e receiver log =
     (case DocumentChangedEvent_dispatch e receiver log of
        Inl err \<Rightarrow> Inl err
      | Inr log1 \<Rightarrow>
          (if hasattr receiver ''_document_patched''
           then call_method receiver ''_document_patched'' e log1
           else Inr log1))"

definition ModelChangedEvent_dispatch :: "event \<Rightarrow> receiver \<Rightarrow> calls \<Rightarrow> error + calls" where
  "ModelChangedEvent_dispatch e receiver log =
     (case DocumentPatchedEvent_dispatch e receiver log of
        Inl err \<Rightarrow> Inl err
      | Inr log1 \<Rightarrow>
          (if hasattr receiver ''_document_model_changed''
           then call_method receiver ''_document_patched'' e log1
           else Inr log1))"

definition SessionCallbackAdded_dispatch :: "event \<Rightarrow> receiver \<Rightarrow> calls \<Rightarrow> error + calls" where
  "SessionCallbackAdded_dispatch e receiver log =
     (case DocumentChangedEvent_dispatch e receiver log of
        Inl err \<Rightarrow> Inl err
      | Inr log1 \<Rightarrow>
          (if hasattr receiver ''_session_callback_added''
           then call_method receiver ''_session_callback_added'' e log1
           else Inr log1))"

definition SessionCallbackRemoved_dispatch :: "event \<Rightarrow> receiver \<Rightarrow> calls \<Rightarrow> error + calls" where
  "SessionCallbackRemoved_dispatch e receiver log =
     (case DocumentChangedEvent_dispatch e receiver log of
        Inl err \<Rightarrow> Inl err
      | Inr log1 \<Rightarrow>
          (if hasattr receiver ''_session_callback_removed''
           then call_method receiver ''_session_callback_removed'' e log1
           else Inr log1))"

text \<open>\<open>event.dispatch(receiver)\<close>: the method of the event's class; the title and
  root events inherit the one of \<open>DocumentPatchedEvent\<close>.\<close>

fun dispatch :: "event \<Rightarrow> receiver \<Rightarrow> calls \<Rightarrow> error + calls" where
  "dispatch (DocumentChangedEvent d) = DocumentChangedEvent_dispatch (DocumentChangedEvent d)"
| "dispatch (DocumentPatchedEvent d) = DocumentPatchedEvent_dispatch (DocumentPatchedEvent d)"
| "dispatch (ModelChangedEvent d m a old new) =
     ModelChangedEvent_dispatch (ModelChangedEvent d m a old new)"
| "dispatch (TitleChangedEvent d t) = DocumentPatchedEvent_dispatch (TitleChangedEvent d t)"
| "dispatch (RootAddedEvent d m) = DocumentPatchedEvent_dispatch (RootAddedEvent d m)"
| "dispatch (RootRemovedEvent d m) = DocumentPatchedEvent_dispatch (RootRemovedEvent d m)"
| "dispatch (SessionCallbackAdded d h) = SessionCallbackAdded_dispatch (SessionCallbackAdded d h)"
| "dispatch (SessionCallbackRemoved d h) =
     SessionCallbackRemoved_dispatch (SessionCallbackRemoved d h)"

section \<open>Models and the state of a document\<close>

text \<open>Modelled from the spec: the class \<open>Model\<close> is imported by \<open>document.py\<close> and
  not defined there. Of a model object the document reads \<open>_id\<close>, the type and
  subtype of its \<open>ref\<close>, and the values of its properties; \<open>name\<close> is one of the
  properties, a string or \<open>None\<close>.\<close>

record model_obj =
  obj_id :: string
  obj_type :: string
  obj_subtype :: "string option"
  obj_props :: "(string \<times> pyvalue) list"

type_synonym heap = "model_ref \<Rightarrow> model_obj"

definition name :: "heap \<Rightarrow> model_ref \<Rightarrow> string option" where
  "name h m = (case map_of (obj_props (h m)) ''name'' of Some (PStr n) \<Rightarrow> Some n | _ \<Rightarrow> None)"

text \<open>The interpreter decides what \<open>dict.values()\<close> is: a new list in Python 2, a
  view of the dictionary in Python 3. The file supports both (\<open>__future__\<close>,
  \<open>six\<close>).\<close>

datatype python_version = Python2 | Python3

text \<open>The fields of a \<open>Document\<close> (\<open>_roots\<close>, \<open>_title\<close>, \<open>_all_models_freeze_count\<close>,
  \<open>_all_models\<close>, \<open>_all_models_by_name\<close>, \<open>_callbacks\<close>, \<open>_session_callbacks\<close>) with
  the identity of the object, and what it shares with the rest of the process:
  the model objects, the \<open>document\<close> attribute of each model, and the current
  document of \<open>bokeh.io\<close>. Sets and dictionaries are lists in iteration order.
  Two fields record what happened: \<open>emitted\<close> the events given to
  \<open>_trigger_on_change\<close>, \<open>invoked\<close> each call \<open>cb(event)\<close> with the current
  document at the time of the call.\<close>

record state =
  self_ref :: doc_ref
  roots :: "model_ref list"
  title :: "string option"
  all_models_freeze_count :: int
  all_models :: "(string \<times> model_ref) list"
  all_models_by_name :: "(string, model_ref) MultiValuedDict"
  callbacks :: "cb_ref list"
  session_callbacks :: "(pykey \<times> SessionCallback) list"
  heap :: heap
  heap_next :: model_ref
  owner :: "model_ref \<Rightarrow> doc_ref option"
  curdoc :: doc_ref
  python :: python_version
  emitted :: "event list"
  invoked :: "(cb_ref \<times> event \<times> doc_ref) list"

type_synonym outcome = "error option \<times> state"

text \<open>What the registered callables do when called with an event: they may change
  anything and may raise.\<close>

type_synonym listeners = "cb_ref \<Rightarrow> event \<Rightarrow> state \<Rightarrow> outcome"

text \<open>\<open>Model.references()\<close>, taken as a parameter of the operations that call it.\<close>

type_synonym references_fn = "heap \<Rightarrow> model_ref \<Rightarrow> model_ref list"

text \<open>Modelled from the spec: \<open>_attach_document\<close> and \<open>_detach_document\<close> of \<open>Model\<close>
  set and clear the model's \<open>document\<close>.\<close>

definition attach_document ::
  "doc_ref \<Rightarrow> model_ref \<Rightarrow> (model_ref \<Rightarrow> doc_ref option) \<Rightarrow> (model_ref \<Rightarrow> doc_ref option)" where
  "attach_document doc a own = own(a \<mapsto> doc)"

definition detach_document ::
  "model_ref \<Rightarrow> (model_ref \<Rightarrow> doc_ref option) \<Rightarrow> (model_ref \<Rightarrow> doc_ref option)" where
  "detach_document d own = own(d := None)"

text \<open>\<open>Document.__init__\<close>: a new document object \<open>doc\<close> in the process of \<open>s\<close>. The
  keyword \<open>title\<close> may be absent (\<open>None\<close> here) or carry any value, \<open>None\<close> included.\<close>

definition DEFAULT_TITLE :: string where
  "DEFAULT_TITLE = ''Bokeh Application''"

definition Document_init :: "doc_ref \<Rightarrow> string option option \<Rightarrow> state \<Rightarrow> state" where
  "Document_init doc title_kw s =
     s\<lparr>self_ref := doc,
       roots := [],
       title := (case title_kw of None \<Rightarrow> Some DEFAULT_TITLE | Some t \<Rightarrow> t),
       all_models_freeze_count := 0,
       all_models := [],
       all_models_by_name := MultiValuedDict_init,
       callbacks := [],
       session_callbacks := []\<rparr>"

text \<open>Listeners that only observe: each returns without changing anything.\<close>

definition only_observe :: listeners where
  "only_observe cb e s = (None, s)"

subsection \<open>Recomputing the models of the document\<close>

text \<open>The loop \<open>for r in self.roots: new = new.union(r.references())\<close>.\<close>

definition union_references :: "references_fn \<Rightarrow> heap \<Rightarrow> model_ref list \<Rightarrow> model_ref list" where
  "union_references refs h rs = fold (\<lambda>r acc. List.union acc (refs h r)) rs []"

text \<open>The loop body \<open>if m.name is not None: recomputed_by_name.add_value(m.name, m)\<close>,
  an exception ending the loop.\<close>

definition add_by_name ::
  "heap \<Rightarrow> model_ref \<Rightarrow> error + (string, model_ref) MultiValuedDict
     \<Rightarrow> error + (string, model_ref) MultiValuedDict" where
  "add_by_name h m acc =
     (case acc of
        Inl err \<Rightarrow> Inl err
      | Inr d \<Rightarrow>
          (case name h m of
             None \<Rightarrow> Inr d
           | Some n \<Rightarrow> add_value (Some n) (ArgVal m) d))"

definition recompute_all_models :: "references_fn \<Rightarrow> state \<Rightarrow> outcome" where
  "recompute_all_models refs s =
     (let new_all_models_set = union_references refs (heap s) (roots s);
          old_all_models_set = remdups (map snd (all_models s));
          to_detach = filter (\<lambda>d. d \<notin> set new_all_models_set) old_all_models_set;
          to_attach = filter (\<lambda>a. a \<notin> set old_all_models_set) new_all_models_set;
          recomputed = fold (\<lambda>m d. AList.update (obj_id (heap s m)) m d) new_all_models_set [];
          recomputed_by_name = fold (add_by_name (heap s)) new_all_models_set (Inr MultiValuedDict_init)
      in case recomputed_by_name of
           Inl err \<Rightarrow> (Some err, s)
         | Inr by_name \<Rightarrow>
             (None, s\<lparr>owner := fold (attach_document (self_ref s)) to_attach
                                (fold detach_document to_detach (owner s)),
                      all_models := recomputed,
                      all_models_by_name := by_name\<rparr>))"

definition push_all_models_freeze :: "state \<Rightarrow> state" where
  "push_all_models_freeze s = s\<lparr>all_models_freeze_count := all_models_freeze_count s + 1\<rparr>"

definition pop_all_models_freeze :: "references_fn \<Rightarrow> state \<Rightarrow> outcome" where
  "pop_all_models_freeze refs s =
     (let s1 = s\<lparr>all_models_freeze_count := all_models_freeze_count s - 1\<rparr>
      in if all_models_freeze_count s1 = 0 then recompute_all_models refs s1 else (None, s1))"

definition invalidate_all_models :: "references_fn \<Rightarrow> state \<Rightarrow> outcome" where
  "invalidate_all_models refs s =
     (if all_models_freeze_count s = 0 then recompute_all_models refs s else (None, s))"

subsection \<open>Listeners\<close>

text \<open>\<open>on_change\<close> for one callback that \<open>_check_callback\<close> accepts, and
  \<open>on_change_dispatch_to\<close>: both store under the identity of the argument.\<close>

definition on_change :: "cb_ref \<Rightarrow> state \<Rightarrow> state" where
  "on_change callback s =
     (if callback \<in> set (callbacks s) then s
      else s\<lparr>callbacks := callbacks s @ [callback]\<rparr>)"

definition remove_on_change :: "cb_ref \<Rightarrow> state \<Rightarrow> outcome" where
  "remove_on_change callback s =
     (if callback \<in> set (callbacks s)
      then (None, s\<lparr>callbacks := removeAll callback (callbacks s)\<rparr>)
      else (Some KeyError, s))"

text \<open>The call \<open>cb(event)\<close>.\<close>

definition call_callback :: "listeners \<Rightarrow> event \<Rightarrow> cb_ref \<Rightarrow> state \<Rightarrow> outcome" where
  "call_callback env e cb s = env cb e (s\<lparr>invoked := invoked s @ [(cb, e, curdoc s)]\<rparr>)"

text \<open>\<open>for cb in xs: cb(event)\<close> over a list \<open>xs\<close>.\<close>

fun for_in_list :: "listeners \<Rightarrow> event \<Rightarrow> cb_ref list \<Rightarrow> state \<Rightarrow> outcome" where
  "for_in_list env e [] s = (None, s)"
| "for_in_list env e (cb # cbs) s =
     (case call_callback env e cb s of
        (Some err, s1) \<Rightarrow> (Some err, s1)
      | (None, s1) \<Rightarrow> for_in_list env e cbs s1)"

text \<open>\<open>for cb in self._callbacks.values(): cb(event)\<close> over a view: each step first
  compares the size of the dictionary with the size it had when the iteration
  began and raises \<open>RuntimeError\<close> when they differ, then takes the entry at the
  next position.\<close>

function for_in_view :: "listeners \<Rightarrow> event \<Rightarrow> nat \<Rightarrow> nat \<Rightarrow> state \<Rightarrow> outcome" where
  "for_in_view env e n i s =
     (if length (callbacks s) \<noteq> n then (Some RuntimeError, s)
      else if n \<le> i then (None, s)
      else (case call_callback env e (callbacks s ! i) s of
              (Some err, s1) \<Rightarrow> (Some err, s1)
            | (None, s1) \<Rightarrow> for_in_view env e n (Suc i) s1))"
  by pat_completeness auto
termination
  by (relation "measure (\<lambda>(env, e, n, i, s). n - i)") auto

declare for_in_view.simps [simp del]

definition invoke_callbacks :: "listeners \<Rightarrow> event \<Rightarrow> state \<Rightarrow> outcome" where
  "invoke_callbacks env e s =
     (case python s of
        Python2 \<Rightarrow> for_in_list env e (callbacks s) s
      | Python3 \<Rightarrow> for_in_view env e (length (callbacks s)) 0 s)"

text \<open>Modelled from the spec: \<open>curdoc()\<close> and \<open>set_curdoc\<close> of \<open>bokeh.io\<close> read and
  write the current document of the process. \<open>finally\<close> restores it whether
  \<open>f\<close> returns or raises.\<close>

definition with_self_as_curdoc :: "(state \<Rightarrow> outcome) \<Rightarrow> state \<Rightarrow> outcome" where
  "with_self_as_curdoc f s =
     (let old_doc = curdoc s
      in case f (s\<lparr>curdoc := self_ref s\<rparr>) of
           (r, s1) \<Rightarrow> (r, s1\<lparr>curdoc := old_doc\<rparr>))"

definition trigger_on_change :: "listeners \<Rightarrow> event \<Rightarrow> state \<Rightarrow> outcome" where
  "trigger_on_change env e s =
     with_self_as_curdoc (invoke_callbacks env e) (s\<lparr>emitted := emitted s @ [e]\<rparr>)"

subsection \<open>Title and roots\<close>

text \<open>The setter of \<open>title\<close>; the argument \<open>None\<close> is Python's \<open>None\<close>.\<close>

definition title_setter :: "listeners \<Rightarrow> string option \<Rightarrow> state \<Rightarrow> outcome" where
  "title_setter env new_title s =
     (case new_title of
        None \<Rightarrow> (Some ValueError, s)
      | Some t \<Rightarrow>
          (if title s \<noteq> Some t
           then trigger_on_change env (TitleChangedEvent (self_ref s) t) (s\<lparr>title := Some t\<rparr>)
           else (None, s)))"

definition add_root :: "references_fn \<Rightarrow> listeners \<Rightarrow> model_ref \<Rightarrow> state \<Rightarrow> outcome" where
  "add_root refs env model s =
     (if model \<in> set (roots s) then (None, s)
      else
        (let s1 = push_all_models_freeze s;
             s2 = s1\<lparr>roots := roots s1 @ [model]\<rparr>
         in case pop_all_models_freeze refs s2 of
              (Some err, s3) \<Rightarrow> (Some err, s3)
            | (None, s3) \<Rightarrow> trigger_on_change env (RootAddedEvent (self_ref s3) model) s3))"

definition remove_root :: "references_fn \<Rightarrow> listeners \<Rightarrow> model_ref \<Rightarrow> state \<Rightarrow> outcome" where
  "remove_root refs env model s =
     (if model \<notin> set (roots s) then (None, s)
      else
        (let s1 = push_all_models_freeze s;
             s2 = s1\<lparr>roots := removeAll model (roots s1)\<rparr>
         in case pop_all_models_freeze refs s2 of
              (Some err, s3) \<Rightarrow> (Some err, s3)
            | (None, s3) \<Rightarrow> trigger_on_change env (RootRemovedEvent (self_ref s3) model) s3))"

text \<open>The loop of \<open>clear\<close>: \<open>while len(self._roots) > 0\<close>, removing the first root
  of the iteration. A listener may add roots again, so the loop need not end.\<close>

partial_function (option) clear_loop :: "references_fn \<Rightarrow> listeners \<Rightarrow> state \<Rightarrow> outcome option" where
  "clear_loop refs env s =
     (case roots s of
        [] \<Rightarrow> Some (None, s)
      | r # _ \<Rightarrow>
          (case remove_root refs env r s of
             (Some err, s1) \<Rightarrow> Some (Some err, s1)
           | (None, s1) \<Rightarrow> clear_loop refs env s1))"

text \<open>\<open>clear\<close>: the loop between push and pop; \<open>finally\<close> pops also when the loop
  raised, and an exception of the pop replaces the one of the loop.\<close>

definition clear :: "references_fn \<Rightarrow> listeners \<Rightarrow> state \<Rightarrow> outcome option" where
  "clear refs env s =
     (case clear_loop refs env (push_all_models_freeze s) of
        None \<Rightarrow> None
      | Some (r, s1) \<Rightarrow>
          (case pop_all_models_freeze refs s1 of
             (Some err, s2) \<Rightarrow> Some (Some err, s2)
           | (None, s2) \<Rightarrow> Some (r, s2)))"

subsection \<open>Session callbacks\<close>

text \<open>\<open>add_periodic_callback(callback, period, id)\<close>: \<open>uuid4\<close> is the identifier
  that \<open>uuid.uuid4()\<close> produces when \<open>id\<close> is \<open>None\<close>. The handle is returned unless
  a listener raised.\<close>

definition add_periodic_callback ::
  "listeners \<Rightarrow> string \<Rightarrow> cb_ref \<Rightarrow> int \<Rightarrow> string option \<Rightarrow> state
     \<Rightarrow> (error + SessionCallback) \<times> state" where
  "add_periodic_callback env uuid4 callback period ident s =
     (let cb = \<lparr>sc_id = (case ident of None \<Rightarrow> uuid4 | Some i \<Rightarrow> i),
                sc_document = self_ref s,
                sc_callback = callback,
                sc_class = PeriodicCallback period\<rparr>;
          s1 = s\<lparr>session_callbacks := AList.update (Callable callback) cb (session_callbacks s)\<rparr>
      in case trigger_on_change env (SessionCallbackAdded (self_ref s1) cb) s1 of
           (Some err, s2) \<Rightarrow> (Inl err, s2)
         | (None, s2) \<Rightarrow> (Inr cb, s2))"

definition add_timeout_callback ::
  "listeners \<Rightarrow> string \<Rightarrow> cb_ref \<Rightarrow> int \<Rightarrow> string option \<Rightarrow> state
     \<Rightarrow> (error + SessionCallback) \<times> state" where
  "add_timeout_callback env uuid4 callback timeout ident s =
     (let cb = \<lparr>sc_id = (case ident of None \<Rightarrow> uuid4 | Some i \<Rightarrow> i),
                sc_document = self_ref s,
                sc_callback = callback,
                sc_class = TimeoutCallback timeout\<rparr>;
          s1 = s\<lparr>session_callbacks := AList.update (Callable callback) cb (session_callbacks s)\<rparr>
      in case trigger_on_change env (SessionCallbackAdded (self_ref s1) cb) s1 of
           (Some err, s2) \<Rightarrow> (Inl err, s2)
         | (None, s2) \<Rightarrow> (Inr cb, s2))"

text \<open>\<open>_remove_session_callback(callback)\<close>: \<open>dict.pop\<close> raises \<open>KeyError\<close> for a key
  that is not in the table.\<close>

definition remove_session_callback :: "listeners \<Rightarrow> pykey \<Rightarrow> state \<Rightarrow> outcome" where
  "remove_session_callback env callback s =
     (case map_of (session_callbacks s) callback of
        None \<Rightarrow> (Some KeyError, s)
      | Some cb \<Rightarrow>
          trigger_on_change env (SessionCallbackRemoved (self_ref s) cb)
            (s\<lparr>session_callbacks := AList.delete callback (session_callbacks s)\<rparr>))"

definition remove_periodic_callback :: "listeners \<Rightarrow> pykey \<Rightarrow> state \<Rightarrow> outcome" where
  "remove_periodic_callback env callback s = remove_session_callback env callback s"

definition remove_timeout_callback :: "listeners \<Rightarrow> pykey \<Rightarrow> state \<Rightarrow> outcome" where
  "remove_timeout_callback env callback s = remove_session_callback env callback s"

text \<open>\<open>SessionCallback.remove\<close>: \<open>self.document._remove_session_callback(self)\<close>
  reads the attribute \<open>document\<close> of the handle and passes the handle itself.\<close>

definition SessionCallback_remove :: "listeners \<Rightarrow> SessionCallback \<Rightarrow> state \<Rightarrow> outcome" where
  "SessionCallback_remove env h s =
     (if ''document'' \<in> set (attributes h)
      then remove_session_callback env (Handle h) s
      else (Some AttributeError, s))"

section \<open>The patch generator\<close>

text \<open>Modelled from the spec: \<open>Model.ref\<close> is \<open>{id, type[, subtype]}\<close>.\<close>

record json_ref =
  ref_id :: string
  ref_type :: string
  ref_subtype :: "string option"

definition ref :: "heap \<Rightarrow> model_ref \<Rightarrow> json_ref" where
  "ref h m = \<lparr>ref_id = obj_id (h m), ref_type = obj_type (h m), ref_subtype = obj_subtype (h m)\<rparr>"

datatype json_event =
    ModelChanged json_ref string pyvalue
  | RootAdded json_ref
  | RootRemoved json_ref
  | TitleChanged string

text \<open>\<open>Model.collect_models\<close>, taken as a parameter.\<close>

type_synonym collect_fn = "pyvalue \<Rightarrow> model_ref list"

text \<open>The body of the loop of \<open>create_json_patch_string\<close> after the check of the
  event's document: the \<open>isinstance\<close> chain, on the pair of \<open>references\<close> and
  \<open>json_events\<close>. An event of no listed class changes neither.\<close>

fun patch_event ::
  "collect_fn \<Rightarrow> references_fn \<Rightarrow> heap \<Rightarrow> event \<Rightarrow> model_ref list \<times> json_event list
     \<Rightarrow> model_ref list \<times> json_event list" where
  "patch_event collect_models refs h (ModelChangedEvent d model attr old new) (references, json_events) =
     (let value = new;
          value_refs = remdups (collect_models value);
          value_refs1 = (if PModel model \<noteq> value then removeAll model value_refs else value_refs)
      in (List.union references value_refs1,
          json_events @ [ModelChanged (ref h model) attr value]))"
| "patch_event collect_models refs h (RootAddedEvent d model) (references, json_events) =
     (List.union references (refs h model), json_events @ [RootAdded (ref h model)])"
| "patch_event collect_models refs h (RootRemovedEvent d model) (references, json_events) =
     (references, json_events @ [RootRemoved (ref h model)])"
| "patch_event collect_models refs h (TitleChangedEvent d t) (references, json_events) =
     (references, json_events @ [TitleChanged t])"
| "patch_event collect_models refs h _ (references, json_events) = (references, json_events)"

text \<open>The loop over \<open>events\<close>; an event of another document raises \<open>ValueError\<close>.\<close>

fun patch_events ::
  "collect_fn \<Rightarrow> references_fn \<Rightarrow> doc_ref \<Rightarrow> heap \<Rightarrow> event list
     \<Rightarrow> model_ref list \<times> json_event list \<Rightarrow> error + model_ref list \<times> json_event list" where
  "patch_events collect_models refs self h [] acc = Inr acc"
| "patch_events collect_models refs self h (e # es) acc =
     (if document e \<noteq> self then Inl ValueError
      else patch_events collect_models refs self h es (patch_event collect_models refs h e acc))"

text \<open>Modelled from the spec: \<open>_to_json_like\<close> gives the values of the properties
  with each model replaced by a reference to it.\<close>

fun to_json_value :: "heap \<Rightarrow> pyvalue \<Rightarrow> pyvalue" where
  "to_json_value h (PModel m) = PRef (obj_id (h m)) (obj_type (h m))"
| "to_json_value h (PList vs) = PList (map (to_json_value h) vs)"
| "to_json_value h v = v"

definition to_json_like :: "heap \<Rightarrow> model_ref \<Rightarrow> (string \<times> pyvalue) list" where
  "to_json_like h m = map (\<lambda>(k, v). (k, to_json_value h v)) (obj_props (h m))"

text \<open>A record of \<open>_references_json\<close>: the \<open>ref\<close> of the model with its attributes.\<close>

record model_json =
  mj_ref :: json_ref
  mj_attributes :: "(string \<times> pyvalue) list"

definition references_json :: "heap \<Rightarrow> model_ref list \<Rightarrow> model_json list" where
  "references_json h references =
     map (\<lambda>r. \<lparr>mj_ref = ref h r, mj_attributes = to_json_like h r\<rparr>) references"

text \<open>The patch before \<open>serialize_json\<close> turns it into a string.\<close>

record patch_json =
  patch_events_json :: "json_event list"
  patch_references :: "model_json list"

definition create_json_patch_string ::
  "collect_fn \<Rightarrow> references_fn \<Rightarrow> event list \<Rightarrow> state \<Rightarrow> error + patch_json" where
  "create_json_patch_string collect_models refs events s =
     (case patch_events collect_models refs (self_ref s) (heap s) events ([], []) of
        Inl err \<Rightarrow> Inl err
      | Inr (references, json_events) \<Rightarrow>
          Inr \<lparr>patch_events_json = json_events,
               patch_references = references_json (heap s) references\<rparr>)"

text \<open>A listener (callable 5) that registers another listener (callable 6) when it
  is called: \<open>lambda event: doc.on_change(other)\<close>.\<close>

definition registering_listener :: listeners where
  "registering_listener cb e s = (if cb = 5 then (None, on_change 6 s) else (None, s))"

text \<open>Listeners that return after changing at most the registered listeners.\<close>

definition edits_listeners :: "listeners \<Rightarrow> bool" where
  "edits_listeners env \<longleftrightarrow> (\<forall>cb e s. \<exists>cbs. env cb e s = (None, s\<lparr>callbacks := cbs\<rparr>))"

section \<open>The closure invariant\<close>

text \<open>The invariant of the specification: the dictionary \<open>_all_models\<close> holds, under
  its \<open>_id\<close>, each model of the union of \<open>r.references()\<close> over the roots \<open>r\<close> and
  nothing else, no key twice; and the \<open>document\<close> of each model in it is this
  document.\<close>

definition closure_invariant :: "references_fn \<Rightarrow> state \<Rightarrow> bool" where
  "closure_invariant refs s \<longleftrightarrow>
     set (all_models s) =
       (\<lambda>m. (obj_id (heap s m), m)) ` (\<Union>r \<in> set (roots s). set (refs (heap s) r)) \<and>
     distinct (map fst (all_models s)) \<and>
     (\<forall>m \<in> snd ` set (all_models s). owner s m = Some (self_ref s))"

section \<open>The JSON form of a document\<close>

record doc_json =
  json_title :: "string option"
  json_root_ids :: "string list"
  json_references :: "model_json list"
  json_version :: string

text \<open>\<open>to_json_string\<close> before \<open>serialize_json\<close> writes the dictionary as a
  string; \<open>version\<close> is \<open>__version__\<close>. \<open>to_json\<close> parses that string again
  (\<open>loads\<close>), which gives the dictionary back.\<close>

definition to_json_string :: "string \<Rightarrow> state \<Rightarrow> doc_json" where
  "to_json_string version s =
     (let root_ids = map (\<lambda>r. obj_id (heap s r)) (roots s);
          root_references = map snd (all_models s)
      in \<lparr>json_title = title s,
          json_root_ids = root_ids,
          json_references = references_json (heap s) root_references,
          json_version = version\<rparr>)"

definition to_json :: "string \<Rightarrow> state \<Rightarrow> doc_json" where
  "to_json version s = to_json_string version s"

text \<open>Modelled from the spec: \<open>Model.get_class\<close> gives the class registered under a
  name and raises \<open>KeyError\<close> for an unknown one. Of a class the document uses
  \<open>properties()\<close> and \<open>properties_with_refs()\<close>.\<close>

record model_class =
  properties :: "string list"
  properties_with_refs :: "string list"

type_synonym class_table = "string \<Rightarrow> model_class option"

text \<open>Modelled from the spec: \<open>cls(id=obj_id, _block_events=True)\<close> makes an
  instance with that id, of the type and subtype under which the class was
  looked up, and no property assigned yet. It never gives \<open>None\<close>, so the
  \<open>RuntimeError\<close> of \<open>_instantiate_references_json\<close> is not raised.\<close>

definition construct :: "model_class \<Rightarrow> json_ref \<Rightarrow> model_obj" where
  "construct cls r =
     \<lparr>obj_id = ref_id r, obj_type = ref_type r, obj_subtype = ref_subtype r, obj_props = []\<rparr>"

text \<open>\<open>_instantiate_references_json\<close>: \<open>references\<close> is the dictionary being built,
  \<open>next\<close> the object that the next construction creates.\<close>

fun instantiate_references_json ::
  "class_table \<Rightarrow> model_json list \<Rightarrow> (string \<times> model_ref) list \<Rightarrow> heap \<Rightarrow> model_ref
     \<Rightarrow> error + (string \<times> model_ref) list \<times> heap \<times> model_ref" where
  "instantiate_references_json classes [] references h next = Inr (references, h, next)"
| "instantiate_references_json classes (obj # objs) references h next =
     (let obj_id = ref_id (mj_ref obj);
          obj_type = (case ref_subtype (mj_ref obj) of
                        Some st \<Rightarrow> st
                      | None \<Rightarrow> ref_type (mj_ref obj))
      in case classes obj_type of
           None \<Rightarrow> Inl KeyError
         | Some cls \<Rightarrow>
             instantiate_references_json classes objs
               (AList.update obj_id next references)
               (h(next := construct cls (mj_ref obj)))
               (Suc next))"

text \<open>The results of a list of calls, the first exception winning.\<close>

fun sequence :: "(error + 'a) list \<Rightarrow> error + 'a list" where
  "sequence [] = Inr []"
| "sequence (Inl err # rs) = Inl err"
| "sequence (Inr x # rs) = (case sequence rs of Inl err \<Rightarrow> Inl err | Inr xs \<Rightarrow> Inr (x # xs))"

text \<open>Modelled from the spec: \<open>from_json(value, models)\<close> of a property replaces each
  reference by the instance that \<open>models\<close> holds under its id, and fails for an id
  that \<open>models\<close> lacks.\<close>

fun from_json_value :: "(string \<times> model_ref) list \<Rightarrow> pyvalue \<Rightarrow> error + pyvalue" where
  "from_json_value models (PRef i t) =
     (case map_of models i of
        None \<Rightarrow> Inl DeserializationError
      | Some m \<Rightarrow> Inr (PModel m))"
| "from_json_value models (PList vs) =
     (case sequence (map (from_json_value models) vs) of
        Inl err \<Rightarrow> Inl err
      | Inr ws \<Rightarrow> Inr (PList ws))"
| "from_json_value models v = Inr v"

text \<open>The class of an instance, under the name \<open>get_class\<close> knows it by.\<close>

definition class_name :: "model_obj \<Rightarrow> string" where
  "class_name obj = (case obj_subtype obj of Some st \<Rightarrow> st | None \<Rightarrow> obj_type obj)"

text \<open>The loop \<open>for p in instance.properties_with_refs(): if p in obj_attrs:
  obj_attrs[p] = prop.from_json(obj_attrs[p], models=references)\<close>.\<close>

fun decode_refs ::
  "(string \<times> model_ref) list \<Rightarrow> string list \<Rightarrow> (string \<times> pyvalue) list
     \<Rightarrow> error + (string \<times> pyvalue) list" where
  "decode_refs references [] obj_attrs = Inr obj_attrs"
| "decode_refs references (p # ps) obj_attrs =
     (case map_of obj_attrs p of
        None \<Rightarrow> decode_refs references ps obj_attrs
      | Some v \<Rightarrow>
          (case from_json_value references v of
             Inl err \<Rightarrow> Inl err
           | Inr w \<Rightarrow> decode_refs references ps (AList.update p w obj_attrs)))"

text \<open>Modelled from the spec: \<open>update(**attrs)\<close> assigns each attribute.\<close>

definition update :: "(string \<times> pyvalue) list \<Rightarrow> model_obj \<Rightarrow> model_obj" where
  "update attrs obj = obj\<lparr>obj_props := fold (\<lambda>(k, v). AList.update k v) attrs (obj_props obj)\<rparr>"

text \<open>\<open>_initialize_references_json\<close>: for each record the instance is looked up,
  the properties with references are decoded, the keys that are no property of
  the instance are dropped (with a warning), and the rest is assigned.\<close>

fun initialize_references_json ::
  "class_table \<Rightarrow> model_json list \<Rightarrow> (string \<times> model_ref) list \<Rightarrow> heap \<Rightarrow> error + heap" where
  "initialize_references_json classes [] references h = Inr h"
| "initialize_references_json classes (obj # objs) references h =
     (case map_of references (ref_id (mj_ref obj)) of
        None \<Rightarrow> Inl KeyError
      | Some instance \<Rightarrow>
          (case classes (class_name (h instance)) of
             None \<Rightarrow> Inl KeyError
           | Some cls \<Rightarrow>
               (case decode_refs references (properties_with_refs cls) (mj_attributes obj) of
                  Inl err \<Rightarrow> Inl err
                | Inr obj_attrs \<Rightarrow>
                    (let kept = filter (\<lambda>(key, v). key \<in> set (properties cls)) obj_attrs
                     in initialize_references_json classes objs references
                          (h(instance := update kept (h instance)))))))"

text \<open>The loop \<open>for r in root_ids: doc.add_root(references[r])\<close>.\<close>

fun add_roots ::
  "references_fn \<Rightarrow> listeners \<Rightarrow> (string \<times> model_ref) list \<Rightarrow> string list \<Rightarrow> state
     \<Rightarrow> outcome" where
  "add_roots refs env references [] d = (None, d)"
| "add_roots refs env references (r # rs) d =
     (case map_of references r of
        None \<Rightarrow> (Some KeyError, d)
      | Some m \<Rightarrow>
          (case add_root refs env m d of
             (Some err, d1) \<Rightarrow> (Some err, d1)
           | (None, d1) \<Rightarrow> add_roots refs env references rs d1))"

text \<open>\<open>from_json\<close>, in the process of \<open>s\<close>; \<open>doc\<close> is the new \<open>Document()\<close>.\<close>

definition from_json ::
  "class_table \<Rightarrow> references_fn \<Rightarrow> listeners \<Rightarrow> doc_ref \<Rightarrow> doc_json \<Rightarrow> state \<Rightarrow> outcome" where
  "from_json classes refs env doc json s =
     (let root_ids = json_root_ids json;
          references_json = json_references json
      in case instantiate_references_json classes references_json [] (heap s) (heap_next s) of
           Inl err \<Rightarrow> (Some err, s)
         | Inr (references, h1, next) \<Rightarrow>
             (case initialize_references_json classes references_json references h1 of
                Inl err \<Rightarrow> (Some err, s\<lparr>heap := h1, heap_next := next\<rparr>)
              | Inr h2 \<Rightarrow>
                  (case add_roots refs env references root_ids
                          (Document_init doc None (s\<lparr>heap := h2, heap_next := next\<rparr>)) of
                     (Some err, d) \<Rightarrow> (Some err, d)
                   | (None, d) \<Rightarrow> title_setter env (json_title json) d)))"

subsection \<open>What the round trip relies on\<close>

text \<open>The models that a value holds, and whether it is free of reference
  dictionaries.\<close>

fun models_in :: "pyvalue \<Rightarrow> model_ref list" where
  "models_in (PModel m) = [m]"
| "models_in (PList vs) = concat (map models_in vs)"
| "models_in v = []"

fun ref_free :: "pyvalue \<Rightarrow> bool" where
  "ref_free (PRef i t) = False"
| "ref_free (PList vs) = list_all ref_free vs"
| "ref_free v = True"

text \<open>A value with each model \<open>m\<close> in it replaced by \<open>F m\<close>.\<close>

fun rename_models :: "(model_ref \<Rightarrow> model_ref) \<Rightarrow> pyvalue \<Rightarrow> pyvalue" where
  "rename_models F (PModel m) = PModel (F m)"
| "rename_models F (PList vs) = PList (map (rename_models F) vs)"
| "rename_models F v = v"

text \<open>The models that the properties of a model hold, and the models reachable
  from it through them, itself included: what the specification requires
  \<open>references()\<close> to return.\<close>

definition children :: "heap \<Rightarrow> model_ref \<Rightarrow> model_ref list" where
  "children h m = concat (map (\<lambda>(k, v). models_in v) (obj_props (h m)))"

definition reach :: "heap \<Rightarrow> model_ref \<Rightarrow> model_ref set" where
  "reach h m = {n. (m, n) \<in> {(a, b). b \<in> set (children h a)}\<^sup>*}"

definition references_closure :: "references_fn \<Rightarrow> heap \<Rightarrow> model_ref list \<Rightarrow> bool" where
  "references_closure refs h ms \<longleftrightarrow> list_all (\<lambda>m. set (refs h m) = reach h m) ms"

text \<open>A model conforms to the class table when its class is registered, each
  property it holds a value for appears once and is a property of the class,
  the values hold models and not reference dictionaries, and a property whose
  value holds a model is one of the properties with references.\<close>

definition conforms :: "class_table \<Rightarrow> model_obj \<Rightarrow> bool" where
  "conforms classes obj =
     (case classes (class_name obj) of
        None \<Rightarrow> False
      | Some cls \<Rightarrow>
          distinct (map fst (obj_props obj)) \<and>
          list_all (\<lambda>(k, v). k \<in> set (properties cls) \<and> ref_free v \<and>
                      (models_in v \<noteq> [] \<longrightarrow> k \<in> set (properties_with_refs cls)))
            (obj_props obj))"

section \<open>Listeners and callers\<close>

text \<open>An observation of the state that no call of a listener changes, whether the
  listener returns or raises.\<close>

definition keeps :: "(state \<Rightarrow> 'a) \<Rightarrow> listeners \<Rightarrow> bool" where
  "keeps f env \<longleftrightarrow> (\<forall>cb e s. f (snd (env cb e s)) = f s)"

text \<open>The title events and the root-added events among the events emitted.\<close>

fun is_TitleChangedEvent :: "event \<Rightarrow> bool" where
  "is_TitleChangedEvent (TitleChangedEvent d t) = True"
| "is_TitleChangedEvent e = False"

fun is_RootAddedEvent :: "event \<Rightarrow> bool" where
  "is_RootAddedEvent (RootAddedEvent d m) = True"
| "is_RootAddedEvent e = False"

definition title_events :: "state \<Rightarrow> event list" where
  "title_events s = filter is_TitleChangedEvent (emitted s)"

definition root_added_events :: "state \<Rightarrow> event list" where
  "root_added_events s = filter is_RootAddedEvent (emitted s)"

text \<open>A state that callers may observe: the freeze counter is zero and the closure
  invariant holds.\<close>

definition observable :: "references_fn \<Rightarrow> state \<Rightarrow> bool" where
  "observable refs s \<longleftrightarrow> all_models_freeze_count s = 0 \<and> closure_invariant refs s"





section \<open>The scenarios of the specification\<close>

text \<open>Model \<open>A\<close> (object 0, id \<open>a\<close>) whose property \<open>child\<close> holds model \<open>B\<close> (object
  1, id \<open>b\<close>); a third model \<open>C\<close> (object 2, id \<open>c\<close>) without references; every
  other object has an id of its own, \<open>xxx\<close>, \<open>xxxx\<close> and so on.\<close>

definition scenario_heap :: heap where
  "scenario_heap m =
     (if m = 0 then
        \<lparr>obj_id = ''a'', obj_type = ''Plot'', obj_subtype = None,
         obj_props = [(''child'', PModel 1)]\<rparr>
      else if m = 1 then
        \<lparr>obj_id = ''b'', obj_type = ''Plot'', obj_subtype = None,
         obj_props = [(''child'', PNone)]\<rparr>
      else if m = 2 then
        \<lparr>obj_id = ''c'', obj_type = ''Plot'', obj_subtype = None,
         obj_props = [(''child'', PNone)]\<rparr>
      else
        \<lparr>obj_id = replicate m (CHR ''x''), obj_type = ''Plot'', obj_subtype = None,
         obj_props = []\<rparr>)"

definition scenario_references :: references_fn where
  "scenario_references h m = (if m = 0 then [0, 1] else [m])"

text \<open>\<open>Model.collect_models\<close> in the scenarios: a model found in a value, with the
  models it refers to.\<close>

definition scenario_collect_models :: collect_fn where
  "scenario_collect_models v =
     (case v of PModel m \<Rightarrow> scenario_references scenario_heap m | _ \<Rightarrow> [])"

text \<open>A process with these models and no document yet, then a fresh document
  (object 1) with one listener (callable 5) registered.\<close>

definition scenario_process :: state where
  "scenario_process =
     \<lparr>self_ref = 0, roots = [], title = None, all_models_freeze_count = 0,
      all_models = [], all_models_by_name = MultiValuedDict_init, callbacks = [],
      session_callbacks = [], heap = scenario_heap, heap_next = 3,
      owner = (\<lambda>m. None), curdoc = 0, python = Python2, emitted = [], invoked = []\<rparr>"

definition scenario_document :: state where
  "scenario_document = on_change 5 (Document_init 1 None scenario_process)"

text \<open>A listener that raises whatever the event: \<open>def L(event): raise RuntimeError\<close>.\<close>

definition raising_listener :: listeners where
  "raising_listener cb e s = (Some RuntimeError, s)"

text \<open>A listener that answers the title \<open>X\<close> by setting the title to \<open>Y\<close>:
  \<open>def L(event): if event.title == 'X': doc.title = 'Y'\<close>. Its own setting of the
  title notifies it again, with \<open>Y\<close>, and it then returns at once.\<close>

definition title_resetting_listener :: listeners where
  "title_resetting_listener cb e s =
     (case e of
        TitleChangedEvent d t \<Rightarrow>
          (if t = ''X'' then title_setter only_observe (Some ''Y'') s else (None, s))
      | _ \<Rightarrow> (None, s))"

text \<open>A listener that answers a root being added by removing it:
  \<open>def L(event): doc.remove_root(event.model)\<close>. The removal notifies it again,
  of a root removed, and it then returns at once.\<close>

definition root_removing_listener :: "references_fn \<Rightarrow> listeners" where
  "root_removing_listener refs cb e s =
     (case e of
        RootAddedEvent d m \<Rightarrow> remove_root refs only_observe m s
      | _ \<Rightarrow> (None, s))"

text \<open>The class table of the scenarios: the one class \<open>Plot\<close>, with the properties
  \<open>child\<close> and \<open>name\<close>, of which \<open>child\<close> holds references.\<close>

definition scenario_classes :: class_table where
  "scenario_classes c =
     (if c = ''Plot'' then Some \<lparr>properties = [''child'', ''name''], properties_with_refs = [''child'']\<rparr>
      else None)"

text \<open>The cycle of the round-trip scenario: \<open>A.child = B\<close> and \<open>B.child = A\<close>.\<close>

definition cycle_heap :: heap where
  "cycle_heap =
     scenario_heap(1 := \<lparr>obj_id = ''b'', obj_type = ''Plot'', obj_subtype = None,
                          obj_props = [(''child'', PModel 0)]\<rparr>)"

text \<open>Modelled from the spec: \<open>references()\<close> is the transitive closure of the models
  reachable through the properties of a model, itself included. For the
  scenarios it is a traversal that visits at most \<open>n\<close> models.\<close>

fun reachable_within :: "nat \<Rightarrow> heap \<Rightarrow> model_ref list \<Rightarrow> model_ref list \<Rightarrow> model_ref list" where
  "reachable_within 0 h todo seen = seen"
| "reachable_within (Suc n) h [] seen = seen"
| "reachable_within (Suc n) h (m # todo) seen =
     (if m \<in> set seen then reachable_within n h todo seen
      else reachable_within n h (children h m @ todo) (seen @ [m]))"

definition cycle_references :: references_fn where
  "cycle_references h m = reachable_within 8 h [m] []"

text \<open>\<open>doc = Document(title='Cycle'); doc.add_root(A)\<close> in a process that holds the
  cycle.\<close>

definition cycle_document :: state where
  "cycle_document =
     snd (add_root cycle_references only_observe 0
            (Document_init 1 (Some (Some ''Cycle'')) (scenario_process\<lparr>heap := cycle_heap\<rparr>)))"

text \<open>\<open>Document(title=None)\<close>: the constructor stores the keyword as it is.\<close>

definition untitled_document :: state where
  "untitled_document = Document_init 1 (Some None) scenario_process"

section \<open>Properties of the multi-valued dictionary\<close>

lemma get_all_add_value:
  assumes "add_value (Some k) (ArgVal v) d = Inr d1"
  shows "set (get_all d1 k) = insert v (set (get_all d k))"
proof (cases "d k")
  case None
  with assms show ?thesis
    by (auto simp: add_value_def get_all_def)
next
  case (Some sl)
  with assms show ?thesis
    by (cases sl) (auto simp: add_value_def get_all_def)
qed

lemma get_all_remove_value:
  assumes "remove_value (Some k) (ArgVal v) d = Inr d2"
  shows "set (get_all d2 k) = set (get_all d k) - {v}"
proof (cases "d k")
  case None
  with assms show ?thesis
    by (auto simp: remove_value_def get_all_def)
next
  case (Some sl)
  show ?thesis
  proof (cases sl)
    case (Single e)
    with Some assms show ?thesis
      by (auto simp: remove_value_def get_all_def split: if_splits)
  next
    case (Many xs)
    have "removeAll v xs = [] \<Longrightarrow> set xs - {v} = {}"
      by (metis set_removeAll set_empty)
    with Some Many assms show ?thesis
      by (auto simp: remove_value_def get_all_def discard_def Let_def split: if_splits)
  qed
qed

lemma add_value_returns:
  "\<exists>d1. add_value (Some k) (ArgVal v) d = Inr d1"
  by (simp add: add_value_def split: option.splits slot.splits)

lemma remove_value_returns:
  "\<exists>d2. remove_value (Some k) (ArgVal v) d = Inr d2"
  by (simp add: remove_value_def Let_def split: option.splits slot.splits)

text \<open>Claim C9, as the code has it. After \<open>add_value(k, v)\<close> and then
  \<open>remove_value(k, v)\<close>, with \<open>v\<close> neither \<open>None\<close> nor a set, \<open>get_all(k)\<close> returns
  the values that were stored under \<open>k\<close> before, without \<open>v\<close>; it is the empty list
  when \<open>k\<close> held no value other than \<open>v\<close>.\<close>

theorem add_remove_get_all_others:
  "\<exists>xs. add_remove_get_all k v d = Inr xs \<and>
        set xs = set (get_all d k) - {v} \<and>
        (set (get_all d k) \<subseteq> {v} \<longrightarrow> xs = [])"
proof -
  from add_value_returns [of k v d]
  obtain d1 where d1: "add_value (Some k) (ArgVal v) d = Inr d1" ..
  from remove_value_returns [of k v d1]
  obtain d2 where d2: "remove_value (Some k) (ArgVal v) d1 = Inr d2" ..
  have res: "add_remove_get_all k v d = Inr (get_all d2 k)"
    by (simp add: add_remove_get_all_def d1 d2)
  have "set (get_all d2 k) = insert v (set (get_all d k)) - {v}"
    using get_all_remove_value [OF d2] get_all_add_value [OF d1] by simp
  then have eq: "set (get_all d2 k) = set (get_all d k) - {v}"
    by auto
  have "get_all d2 k = []" if "set (get_all d k) \<subseteq> {v}"
  proof -
    from that eq have "set (get_all d2 k) = {}"
      by auto
    then show ?thesis
      by simp
  qed
  then have "set (get_all d k) \<subseteq> {v} \<longrightarrow> get_all d2 k = []"
    by blast
  with res eq show ?thesis
    by blast
qed

theorem add_remove_get_all_others_witness:
  "set (get_all (MultiValuedDict_init :: (string, nat) MultiValuedDict) ''p'') \<subseteq> {2} \<and>
   add_remove_get_all ''p'' (2::nat) MultiValuedDict_init = Inr []"
  using add_remove_get_all_others [of "''p''" "2::nat" MultiValuedDict_init]
  by (auto simp: get_all_def MultiValuedDict_init_def)

text \<open>Claim C9 as stated fails when the key holds another value: with \<open>1\<close> stored
  under \<open>''p''\<close>, adding and removing \<open>2\<close> leaves \<open>get_all\<close> returning \<open>[1]\<close>.\<close>

theorem add_remove_get_all_counterexample:
  "add_value (Some ''p'') (ArgVal (1::nat)) MultiValuedDict_init
     = Inr (MultiValuedDict_init(''p'' \<mapsto> Single 1)) \<and>
   add_remove_get_all ''p'' (2::nat) (MultiValuedDict_init(''p'' \<mapsto> Single 1)) = Inr [1]"
  by (simp add: add_remove_get_all_def add_value_def remove_value_def get_all_def
      MultiValuedDict_init_def discard_def)

section \<open>Properties of dispatch\<close>

text \<open>Claim C3 at a receiver that has all three methods: the event of a changed
  model reaches \<open>_document_changed\<close>, then \<open>_document_patched\<close>, then
  \<open>_document_patched\<close> a second time; \<open>_document_model_changed\<close> is not called.\<close>

theorem ModelChangedEvent_dispatch_calls:
  "dispatch (ModelChangedEvent d m a old new)
     [''_document_changed'', ''_document_patched'', ''_document_model_changed''] []
   = Inr [(''_document_changed'', ModelChangedEvent d m a old new),
          (''_document_patched'', ModelChangedEvent d m a old new),
          (''_document_patched'', ModelChangedEvent d m a old new)]"
  by (simp add: ModelChangedEvent_dispatch_def DocumentPatchedEvent_dispatch_def
      DocumentChangedEvent_dispatch_def call_method_def hasattr_def)

section \<open>The scenario document\<close>

lemma scenario_state [simp]:
  "self_ref scenario_document = 1" "roots scenario_document = []"
  "all_models_freeze_count scenario_document = 0" "all_models scenario_document = []"
  "heap scenario_document = scenario_heap" "callbacks scenario_document = [5]"
  "owner scenario_document = (\<lambda>m. None)" "title scenario_document = Some DEFAULT_TITLE"
  "emitted scenario_document = []" "invoked scenario_document = []"
  "curdoc scenario_document = 0" "python scenario_document = Python2"
  "session_callbacks scenario_document = []"
  by (simp_all add: scenario_document_def scenario_process_def Document_init_def on_change_def)

section \<open>Listeners that only observe\<close>

lemma for_in_list_only_observe:
  "for_in_list only_observe e cbs s =
     (None, s\<lparr>invoked := invoked s @ map (\<lambda>cb. (cb, e, curdoc s)) cbs\<rparr>)"
  by (induction cbs arbitrary: s) (simp_all add: call_callback_def only_observe_def)

lemma for_in_view_only_observe:
  "length (callbacks s) = n \<Longrightarrow> i \<le> n \<Longrightarrow>
   for_in_view only_observe e n i s =
     (None, s\<lparr>invoked := invoked s @ map (\<lambda>cb. (cb, e, curdoc s)) (drop i (callbacks s))\<rparr>)"
proof (induction "n - i" arbitrary: i s)
  case 0
  then show ?case by (subst for_in_view.simps) simp
next
  case (Suc k)
  then have lt: "i < n" by simp
  let ?s1 = "s\<lparr>invoked := invoked s @ [(callbacks s ! i, e, curdoc s)]\<rparr>"
  have step: "for_in_view only_observe e n i s = for_in_view only_observe e n (Suc i) ?s1"
    using lt Suc.prems
    by (subst for_in_view.simps) (simp add: call_callback_def only_observe_def)
  have "k = n - Suc i" using Suc.hyps(2) by simp
  from Suc.hyps(1) [OF this, of ?s1] Suc.prems lt
  have "for_in_view only_observe e n (Suc i) ?s1 =
     (None, ?s1\<lparr>invoked := invoked ?s1 @ map (\<lambda>cb. (cb, e, curdoc ?s1)) (drop (Suc i) (callbacks ?s1))\<rparr>)"
    by simp
  moreover have "drop i (callbacks s) = callbacks s ! i # drop (Suc i) (callbacks s)"
    using lt Suc.prems by (simp add: Cons_nth_drop_Suc)
  ultimately show ?case
    using step by simp
qed

lemma invoke_callbacks_only_observe:
  "invoke_callbacks only_observe e s =
     (None, s\<lparr>invoked := invoked s @ map (\<lambda>cb. (cb, e, curdoc s)) (callbacks s)\<rparr>)"
  by (cases "python s")
     (simp_all add: invoke_callbacks_def for_in_list_only_observe
        for_in_view_only_observe [of s "length (callbacks s)" 0])

lemma trigger_on_change_only_observe:
  "trigger_on_change only_observe e s =
     (None, s\<lparr>emitted := emitted s @ [e],
              invoked := invoked s @ map (\<lambda>cb. (cb, e, self_ref s)) (callbacks s)\<rparr>)"
  by (simp add: trigger_on_change_def with_self_as_curdoc_def invoke_callbacks_only_observe)


section \<open>Properties of session callbacks\<close>

text \<open>Claim C5 at any handle: \<open>remove\<close> of the handle raises \<open>AttributeError\<close>, the
  handle having a field \<open>_document\<close> and no attribute \<open>document\<close>; the table of
  session callbacks is unchanged and no event is emitted.\<close>

theorem SessionCallback_remove_raises:
  "SessionCallback_remove env h s = (Some AttributeError, s)"
  by (cases "sc_class h") (simp_all add: SessionCallback_remove_def attributes_def)


section \<open>Properties of the patch generator\<close>

lemma patch_event_mono:
  "set (fst acc) \<subseteq> set (fst (patch_event c r h e acc))"
  by (cases "(c, r, h, e, acc)" rule: patch_event.cases) (auto simp: Let_def)

lemma patch_events_mono:
  "patch_events c r self h es acc = Inr acc' \<Longrightarrow> set (fst acc) \<subseteq> set (fst acc')"
proof (induction es arbitrary: acc)
  case Nil
  then show ?case by simp
next
  case (Cons e es)
  from Cons.prems have "patch_events c r self h es (patch_event c r h e acc) = Inr acc'"
    by (simp split: if_splits)
  from Cons.IH [OF this] patch_event_mono [of acc c r h e] show ?case
    by blast
qed

lemma patch_events_append:
  "patch_events c r self h (es1 @ es2) acc =
     (case patch_events c r self h es1 acc of
        Inl err \<Rightarrow> Inl err
      | Inr acc1 \<Rightarrow> patch_events c r self h es2 acc1)"
  by (induction es1 arbitrary: acc) auto

lemma patch_event_ModelChanged_references:
  "set (fst (patch_event c r h (ModelChangedEvent d m a old new) (rs, js))) =
     set rs \<union> (if new = PModel m then set (c new) else set (c new) - {m})"
  by (auto simp: Let_def)

lemma patch_events_returns:
  "\<forall>e \<in> set es. document e = self \<Longrightarrow> \<exists>acc'. patch_events c r self h es acc = Inr acc'"
  by (induction es arbitrary: acc) auto

lemma patch_events_contains:
  assumes "ModelChangedEvent d m a old new \<in> set es"
    and "patch_events c r self h es acc = Inr acc'"
  shows "(if new = PModel m then set (c new) else set (c new) - {m}) \<subseteq> set (fst acc')"
proof -
  from assms(1) obtain es1 es2 where es: "es = es1 @ ModelChangedEvent d m a old new # es2"
    by (auto dest: split_list)
  from assms(2) es obtain acc1 where
    acc1: "patch_events c r self h es1 acc = Inr acc1" and
    rest: "patch_events c r self h (ModelChangedEvent d m a old new # es2) acc1 = Inr acc'"
    by (auto simp: patch_events_append split: sum.splits)
  from rest have
    "patch_events c r self h es2 (patch_event c r h (ModelChangedEvent d m a old new) acc1) = Inr acc'"
    by (simp split: if_splits)
  from patch_events_mono [OF this]
    patch_event_ModelChanged_references [of c r h d m a old new "fst acc1" "snd acc1"]
  show ?thesis
    by auto
qed

text \<open>Claim C4. A patch made from one \<open>ModelChangedEvent\<close> carries as references
  exactly \<open>collect_models(event.new)\<close> without \<open>event.model\<close>, and all of
  \<open>collect_models(event.new)\<close> when \<open>event.new\<close> is \<open>event.model\<close>; the references
  of a patch made from any list of events with this event in it contain them.\<close>

theorem patch_ModelChanged_references:
  "(\<exists>references.
      create_json_patch_string collect_models refs
        [ModelChangedEvent (self_ref s) model attr old new] s =
        Inr \<lparr>patch_events_json = [ModelChanged (ref (heap s) model) attr new],
             patch_references = references_json (heap s) references\<rparr> \<and>
      set references =
        (if new = PModel model then set (collect_models new)
         else set (collect_models new) - {model})) \<and>
   (ModelChangedEvent d model attr old new \<in> set events \<and>
    create_json_patch_string collect_models refs events s = Inr p \<longrightarrow>
      (\<exists>references.
         patch_references p = references_json (heap s) references \<and>
         (if new = PModel model then set (collect_models new)
          else set (collect_models new) - {model}) \<subseteq> set references))"
proof (intro conjI impI)
  show "\<exists>references.
      create_json_patch_string collect_models refs
        [ModelChangedEvent (self_ref s) model attr old new] s =
        Inr \<lparr>patch_events_json = [ModelChanged (ref (heap s) model) attr new],
             patch_references = references_json (heap s) references\<rparr> \<and>
      set references =
        (if new = PModel model then set (collect_models new)
         else set (collect_models new) - {model})"
    by (auto simp: create_json_patch_string_def Let_def)
next
  assume a: "ModelChangedEvent d model attr old new \<in> set events \<and>
    create_json_patch_string collect_models refs events s = Inr p"
  then obtain acc' where
    acc': "patch_events collect_models refs (self_ref s) (heap s) events ([], []) = Inr acc'"
    and p: "patch_references p = references_json (heap s) (fst acc')"
    by (auto simp: create_json_patch_string_def split: sum.splits)
  from a patch_events_contains [OF _ acc'] p
  show "\<exists>references.
         patch_references p = references_json (heap s) references \<and>
         (if new = PModel model then set (collect_models new)
          else set (collect_models new) - {model}) \<subseteq> set references"
    by blast
qed



text \<open>The property \<open>child\<close> of \<open>C\<close> set to \<open>A\<close>, after a change of title: the patch
  refers to \<open>A\<close> and \<open>B\<close>.\<close>

theorem patch_ModelChanged_references_witness:
  "ModelChangedEvent 1 2 ''child'' PNone (PModel 0)
     \<in> set [TitleChangedEvent 1 ''X'', ModelChangedEvent 1 2 ''child'' PNone (PModel 0)] \<and>
   create_json_patch_string scenario_collect_models scenario_references
     [TitleChangedEvent 1 ''X'', ModelChangedEvent 1 2 ''child'' PNone (PModel 0)]
     scenario_document =
     Inr \<lparr>patch_events_json = [TitleChanged ''X'', ModelChanged (ref scenario_heap 2) ''child'' (PModel 0)],
          patch_references = references_json scenario_heap [0, 1]\<rparr> \<and>
   (\<exists>references.
      references_json scenario_heap [0, 1] = references_json (heap scenario_document) references \<and>
      {0, 1} \<subseteq> set references)"
proof -
  have h: "ModelChangedEvent 1 2 ''child'' PNone (PModel 0)
     \<in> set [TitleChangedEvent 1 ''X'', ModelChangedEvent 1 2 ''child'' PNone (PModel 0)] \<and>
   create_json_patch_string scenario_collect_models scenario_references
     [TitleChangedEvent 1 ''X'', ModelChangedEvent 1 2 ''child'' PNone (PModel 0)]
     scenario_document =
     Inr \<lparr>patch_events_json = [TitleChanged ''X'', ModelChanged (ref scenario_heap 2) ''child'' (PModel 0)],
          patch_references = references_json scenario_heap [0, 1]\<rparr>"
    by (simp add: create_json_patch_string_def scenario_document_def scenario_process_def
        Document_init_def on_change_def scenario_collect_models_def scenario_references_def
        List.union_def List.insert_def)
  from patch_ModelChanged_references [THEN conjunct2, rule_format, OF h] h
  show ?thesis
    by (simp add: scenario_collect_models_def scenario_references_def)
qed

text \<open>Claim C10. An event of this document whose class is none of the four that the
  generator tests for adds nothing to the patch: the patch is the one made from
  the list without the event, and a patch is returned when the other events
  belong to this document.\<close>

theorem patch_skips_other_events:
  assumes "e \<in> {DocumentChangedEvent (self_ref s), DocumentPatchedEvent (self_ref s),
                SessionCallbackAdded (self_ref s) h, SessionCallbackRemoved (self_ref s) h'}"
  shows "create_json_patch_string collect_models refs (es1 @ e # es2) s =
           create_json_patch_string collect_models refs (es1 @ es2) s \<and>
         ((\<forall>x \<in> set (es1 @ es2). document x = self_ref s) \<longrightarrow>
            (\<exists>p. create_json_patch_string collect_models refs (es1 @ e # es2) s = Inr p))"
proof -
  have skip: "patch_events collect_models refs (self_ref s) (heap s) (e # es2) acc =
      patch_events collect_models refs (self_ref s) (heap s) es2 acc" for acc
    using assms by (cases acc) auto
  have eq: "patch_events collect_models refs (self_ref s) (heap s) (es1 @ e # es2) acc =
      patch_events collect_models refs (self_ref s) (heap s) (es1 @ es2) acc" for acc
    by (simp only: patch_events_append skip)
  then have same: "create_json_patch_string collect_models refs (es1 @ e # es2) s =
           create_json_patch_string collect_models refs (es1 @ es2) s"
    by (simp add: create_json_patch_string_def)
  have "\<exists>p. create_json_patch_string collect_models refs (es1 @ es2) s = Inr p"
    if "\<forall>x \<in> set (es1 @ es2). document x = self_ref s"
  proof -
    from patch_events_returns [OF that]
    obtain acc' where "patch_events collect_models refs (self_ref s) (heap s) (es1 @ es2) ([], []) = Inr acc'"
      by blast
    then show ?thesis
      by (cases acc') (simp add: create_json_patch_string_def)
  qed
  with same show ?thesis
    by simp
qed

text \<open>A \<open>SessionCallbackAdded\<close> event after a change of title leaves the patch of
  the change of title.\<close>

theorem patch_skips_other_events_witness:
  "create_json_patch_string scenario_collect_models scenario_references
     ([TitleChangedEvent 1 ''X''] @
      SessionCallbackAdded 1 \<lparr>sc_id = ''u'', sc_document = 1, sc_callback = 9,
        sc_class = PeriodicCallback 100\<rparr> # []) scenario_document =
   Inr \<lparr>patch_events_json = [TitleChanged ''X''], patch_references = []\<rparr>"
proof -
  have h: "SessionCallbackAdded 1 \<lparr>sc_id = ''u'', sc_document = 1, sc_callback = 9,
        sc_class = PeriodicCallback 100\<rparr>
     \<in> {DocumentChangedEvent (self_ref scenario_document),
        DocumentPatchedEvent (self_ref scenario_document),
        SessionCallbackAdded (self_ref scenario_document)
          \<lparr>sc_id = ''u'', sc_document = 1, sc_callback = 9, sc_class = PeriodicCallback 100\<rparr>,
        SessionCallbackRemoved (self_ref scenario_document)
          \<lparr>sc_id = ''u'', sc_document = 1, sc_callback = 9, sc_class = PeriodicCallback 100\<rparr>}"
    by (simp add: scenario_document_def scenario_process_def Document_init_def on_change_def)
  have all: "\<forall>x \<in> set ([TitleChangedEvent 1 ''X''] @ []). document x = self_ref scenario_document"
    by (simp add: scenario_document_def scenario_process_def Document_init_def on_change_def)
  from patch_skips_other_events [OF h, of scenario_collect_models scenario_references
      "[TitleChangedEvent 1 ''X'']" "[]"] all
  show ?thesis
    by (simp add: create_json_patch_string_def references_json_def
        scenario_document_def scenario_process_def Document_init_def on_change_def)
qed

section \<open>Recomputing re-establishes the closure invariant\<close>

lemma set_union_references:
  "set (union_references refs h rs) = (\<Union>r \<in> set rs. set (refs h r))"
proof -
  have "set (fold (\<lambda>r acc. List.union acc (refs h r)) rs acc) =
      set acc \<union> (\<Union>r \<in> set rs. set (refs h r))" for acc
    by (induction rs arbitrary: acc) auto
  then show ?thesis
    by (simp add: union_references_def)
qed

lemma add_by_name_returns:
  "\<exists>d'. add_by_name h m (Inr d) = Inr d'"
  using add_value_returns [of _ m d]
  by (cases "name h m") (auto simp: add_by_name_def)

lemma fold_add_by_name_returns:
  "\<exists>d'. fold (add_by_name h) ms (Inr d) = Inr d'"
proof (induction ms arbitrary: d)
  case Nil
  then show ?case by simp
next
  case (Cons m ms)
  from add_by_name_returns [of h m d] obtain d1 where "add_by_name h m (Inr d) = Inr d1" ..
  with Cons.IH [of d1] show ?case by simp
qed

lemma set_update_graph:
  assumes "\<forall>p \<in> set d. fst p = f (snd p)"
    and "inj_on f (insert m (snd ` set d))"
  shows "set (AList.update (f m) m d) = insert (f m, m) (set d)"
  using assms
proof (induction d)
  case Nil
  then show ?case by simp
next
  case (Cons p d)
  show ?case
  proof (cases "fst p = f m")
    case True
    with Cons.prems have "f (snd p) = f m" by simp
    from inj_onD [OF Cons.prems(2) this] have "snd p = m"
      by simp
    with True have "p = (f m, m)"
      by (cases p) simp
    then show ?thesis by auto
  next
    case False
    from Cons.prems have "set (AList.update (f m) m d) = insert (f m, m) (set d)"
      by (intro Cons.IH) (auto intro: inj_on_subset)
    with False show ?thesis
      by (cases p) auto
  qed
qed

lemma set_fold_update_graph:
  assumes "\<forall>p \<in> set d. fst p = f (snd p)"
    and "inj_on f (set ms \<union> snd ` set d)"
  shows "set (fold (\<lambda>m d. AList.update (f m) m d) ms d) = set d \<union> (\<lambda>m. (f m, m)) ` set ms"
  using assms
proof (induction ms arbitrary: d)
  case Nil
  then show ?case by simp
next
  case (Cons m ms)
  have inj1: "inj_on f (insert m (snd ` set d))"
    using Cons.prems(2) by (auto intro: inj_on_subset)
  have step: "set (AList.update (f m) m d) = insert (f m, m) (set d)"
    using set_update_graph [OF Cons.prems(1) inj1] .
  have inv: "\<forall>p \<in> set (AList.update (f m) m d). fst p = f (snd p)"
    using step Cons.prems(1) by auto
  have inj2: "inj_on f (set ms \<union> snd ` set (AList.update (f m) m d))"
    using step Cons.prems(2) by (auto intro: inj_on_subset)
  from Cons.IH [OF inv inj2] step show ?case
    by auto
qed

lemma distinct_fold_update:
  "distinct (map fst d) \<Longrightarrow> distinct (map fst (fold (\<lambda>m d. AList.update (f m) m d) ms d))"
  by (induction ms arbitrary: d) (simp_all add: distinct_update)

lemma fold_attach_document:
  "fold (attach_document doc) xs own m = (if m \<in> set xs then Some doc else own m)"
  by (induction xs arbitrary: own) (auto simp: attach_document_def)

lemma fold_detach_document:
  "fold detach_document xs own m = (if m \<in> set xs then None else own m)"
  by (induction xs arbitrary: own) (auto simp: detach_document_def)


lemma recompute_all_models_closure:
  assumes ids: "inj_on (\<lambda>m. obj_id (heap s m)) (\<Union>r \<in> set (roots s). set (refs (heap s) r))"
    and own: "\<forall>m \<in> snd ` set (all_models s). owner s m = Some (self_ref s)"
  shows "\<exists>own' models by_name.
           recompute_all_models refs s =
             (None, s\<lparr>owner := own', all_models := models, all_models_by_name := by_name\<rparr>) \<and>
           closure_invariant refs
             (s\<lparr>owner := own', all_models := models, all_models_by_name := by_name\<rparr>)"
proof -
  let ?new = "union_references refs (heap s) (roots s)"
  let ?old = "remdups (map snd (all_models s))"
  let ?models = "fold (\<lambda>m d. AList.update (obj_id (heap s m)) m d) ?new []"
  let ?own = "fold (attach_document (self_ref s)) (filter (\<lambda>a. a \<notin> set ?old) ?new)
                (fold detach_document (filter (\<lambda>d. d \<notin> set ?new) ?old) (owner s))"
  from fold_add_by_name_returns [of "heap s" ?new MultiValuedDict_init]
  obtain by_name where bn: "fold (add_by_name (heap s)) ?new (Inr MultiValuedDict_init) = Inr by_name" ..
  have res: "recompute_all_models refs s =
      (None, s\<lparr>owner := ?own, all_models := ?models, all_models_by_name := by_name\<rparr>)"
    by (simp add: recompute_all_models_def Let_def bn)
  have new: "set ?new = (\<Union>r \<in> set (roots s). set (refs (heap s) r))"
    by (rule set_union_references)
  have models: "set ?models = (\<lambda>m. (obj_id (heap s m), m)) ` set ?new"
    using set_fold_update_graph [of "[]" "\<lambda>m. obj_id (heap s m)" ?new] ids new by simp
  have dist: "distinct (map fst ?models)"
    by (rule distinct_fold_update) simp
  have owned: "?own m = Some (self_ref s)" if "m \<in> set ?new" for m
  proof (cases "m \<in> set ?old")
    case True
    with own have "owner s m = Some (self_ref s)" by auto
    with True that show ?thesis
      by (simp add: fold_attach_document fold_detach_document)
  next
    case False
    with that show ?thesis
      by (simp add: fold_attach_document)
  qed
  have "closure_invariant refs (s\<lparr>owner := ?own, all_models := ?models, all_models_by_name := by_name\<rparr>)"
    unfolding closure_invariant_def
  proof (intro conjI)
    show "set (all_models (s\<lparr>owner := ?own, all_models := ?models, all_models_by_name := by_name\<rparr>)) =
      (\<lambda>m. (obj_id (heap (s\<lparr>owner := ?own, all_models := ?models, all_models_by_name := by_name\<rparr>) m), m)) `
      (\<Union>r \<in> set (roots (s\<lparr>owner := ?own, all_models := ?models, all_models_by_name := by_name\<rparr>)).
         set (refs (heap (s\<lparr>owner := ?own, all_models := ?models, all_models_by_name := by_name\<rparr>)) r))"
      using models new by simp
    show "distinct (map fst (all_models (s\<lparr>owner := ?own, all_models := ?models, all_models_by_name := by_name\<rparr>)))"
      using dist by simp
    show "\<forall>m \<in> snd ` set (all_models (s\<lparr>owner := ?own, all_models := ?models, all_models_by_name := by_name\<rparr>)).
      owner (s\<lparr>owner := ?own, all_models := ?models, all_models_by_name := by_name\<rparr>) m =
        Some (self_ref (s\<lparr>owner := ?own, all_models := ?models, all_models_by_name := by_name\<rparr>))"
      using models owned by auto
  qed
  with res show ?thesis
    by blast
qed


lemma recompute_all_models_returns:
  "\<exists>own' models by_name.
     recompute_all_models refs s =
       (None, s\<lparr>owner := own', all_models := models, all_models_by_name := by_name\<rparr>)"
proof -
  from fold_add_by_name_returns [of "heap s" "union_references refs (heap s) (roots s)" MultiValuedDict_init]
  obtain by_name where
    "fold (add_by_name (heap s)) (union_references refs (heap s) (roots s)) (Inr MultiValuedDict_init)
       = Inr by_name" ..
  then have "recompute_all_models refs s =
      (None, s\<lparr>owner := fold (attach_document (self_ref s))
           (filter (\<lambda>a. a \<notin> set (remdups (map snd (all_models s))))
              (union_references refs (heap s) (roots s)))
           (fold detach_document
              (filter (\<lambda>d. d \<notin> set (union_references refs (heap s) (roots s)))
                 (remdups (map snd (all_models s))))
              (owner s)),
         all_models := fold (\<lambda>m d. AList.update (obj_id (heap s m)) m d)
           (union_references refs (heap s) (roots s)) [],
         all_models_by_name := by_name\<rparr>)"
    by (simp add: recompute_all_models_def Let_def)
  then show ?thesis
    by blast
qed

lemma closure_invariant_observed [simp]:
  "closure_invariant refs (s\<lparr>emitted := es, invoked := is\<rparr>) = closure_invariant refs s"
  by (simp add: closure_invariant_def)

lemma add_root_closure:
  assumes zero: "all_models_freeze_count s = 0"
    and new: "model \<notin> set (roots s)"
    and ids: "inj_on (\<lambda>m. obj_id (heap s m)) (\<Union>r \<in> set (roots s @ [model]). set (refs (heap s) r))"
    and own: "\<forall>m \<in> snd ` set (all_models s). owner s m = Some (self_ref s)"
  shows "\<exists>s1. add_root refs only_observe model s = (None, s1) \<and>
           closure_invariant refs s1 \<and> all_models_freeze_count s1 = 0 \<and>
           roots s1 = roots s @ [model]"
proof -
  let ?s2 = "s\<lparr>roots := roots s @ [model], all_models_freeze_count := 0\<rparr>"
  from ids own recompute_all_models_closure [of ?s2 refs]
  obtain own' models by_name where
    rec: "recompute_all_models refs ?s2 =
      (None, ?s2\<lparr>owner := own', all_models := models, all_models_by_name := by_name\<rparr>)" and
    inv: "closure_invariant refs (?s2\<lparr>owner := own', all_models := models, all_models_by_name := by_name\<rparr>)"
    by auto
  have pop: "pop_all_models_freeze refs ((push_all_models_freeze s)\<lparr>roots := roots s @ [model]\<rparr>) =
      (None, ?s2\<lparr>owner := own', all_models := models, all_models_by_name := by_name\<rparr>)"
    using zero rec by (simp add: pop_all_models_freeze_def push_all_models_freeze_def Let_def)
  show ?thesis
    using new pop inv zero
    by (simp add: add_root_def Let_def push_all_models_freeze_def trigger_on_change_only_observe)
qed

section \<open>Roots and the closure invariant\<close>

lemma remove_root_closure:
  assumes zero: "all_models_freeze_count s = 0"
    and old: "model \<in> set (roots s)"
    and ids: "inj_on (\<lambda>m. obj_id (heap s m)) (\<Union>r \<in> set (roots s). set (refs (heap s) r))"
    and own: "\<forall>m \<in> snd ` set (all_models s). owner s m = Some (self_ref s)"
  shows "\<exists>s1. remove_root refs only_observe model s = (None, s1) \<and>
           closure_invariant refs s1 \<and> all_models_freeze_count s1 = 0 \<and>
           roots s1 = removeAll model (roots s)"
proof -
  let ?s2 = "s\<lparr>roots := removeAll model (roots s), all_models_freeze_count := 0\<rparr>"
  have "inj_on (\<lambda>m. obj_id (heap ?s2 m)) (\<Union>r \<in> set (roots ?s2). set (refs (heap ?s2) r))"
    using ids by (auto intro: inj_on_subset)
  with own recompute_all_models_closure [of ?s2 refs]
  obtain own' models by_name where
    rec: "recompute_all_models refs ?s2 =
      (None, ?s2\<lparr>owner := own', all_models := models, all_models_by_name := by_name\<rparr>)" and
    inv: "closure_invariant refs (?s2\<lparr>owner := own', all_models := models, all_models_by_name := by_name\<rparr>)"
    by auto
  have pop: "pop_all_models_freeze refs ((push_all_models_freeze s)\<lparr>roots := removeAll model (roots s)\<rparr>) =
      (None, ?s2\<lparr>owner := own', all_models := models, all_models_by_name := by_name\<rparr>)"
    using zero rec by (simp add: pop_all_models_freeze_def push_all_models_freeze_def Let_def)
  show ?thesis
    using old pop inv zero
    by (simp add: remove_root_def Let_def push_all_models_freeze_def trigger_on_change_only_observe)
qed

lemma remove_root_frozen:
  assumes "all_models_freeze_count s \<noteq> 0" and "model \<in> set (roots s)"
  shows "remove_root refs only_observe model s =
    (None, s\<lparr>roots := removeAll model (roots s),
             emitted := emitted s @ [RootRemovedEvent (self_ref s) model],
             invoked := invoked s @
               map (\<lambda>cb. (cb, RootRemovedEvent (self_ref s) model, self_ref s)) (callbacks s)\<rparr>)"
  using assms
  by (simp add: remove_root_def Let_def push_all_models_freeze_def pop_all_models_freeze_def
      trigger_on_change_only_observe)

lemma clear_loop_only_observe:
  "all_models_freeze_count s \<noteq> 0 \<Longrightarrow>
   \<exists>es cs. clear_loop refs only_observe s =
     Some (None, s\<lparr>roots := [], emitted := emitted s @ es, invoked := invoked s @ cs\<rparr>)"
proof (induction "length (roots s)" arbitrary: s rule: less_induct)
  case less
  show ?case
  proof (cases "roots s")
    case Nil
    then have "s\<lparr>roots := [], emitted := emitted s @ [], invoked := invoked s @ []\<rparr> = s"
      by (cases s) simp
    with Nil have "clear_loop refs only_observe s =
        Some (None, s\<lparr>roots := [], emitted := emitted s @ [], invoked := invoked s @ []\<rparr>)"
      by (subst clear_loop.simps) simp
    then show ?thesis by blast
  next
    case (Cons r rs)
    let ?e = "RootRemovedEvent (self_ref s) r"
    let ?s1 = "s\<lparr>roots := removeAll r (roots s),
             emitted := emitted s @ [?e],
             invoked := invoked s @ map (\<lambda>cb. (cb, ?e, self_ref s)) (callbacks s)\<rparr>"
    have rem: "remove_root refs only_observe r s = (None, ?s1)"
      using less.prems Cons by (intro remove_root_frozen) simp_all
    have "length (roots ?s1) < length (roots s)"
      using Cons by (simp add: less_Suc_eq_le)
    from less.hyps [OF this] less.prems
    obtain es cs where
      "clear_loop refs only_observe ?s1 =
         Some (None, ?s1\<lparr>roots := [], emitted := emitted ?s1 @ es, invoked := invoked ?s1 @ cs\<rparr>)"
      by auto
    with rem Cons have "clear_loop refs only_observe s =
        Some (None, s\<lparr>roots := [], emitted := emitted s @ (?e # es),
          invoked := invoked s @ (map (\<lambda>cb. (cb, ?e, self_ref s)) (callbacks s) @ cs)\<rparr>)"
      by (subst clear_loop.simps) simp
    then show ?thesis by blast
  qed
qed

lemma clear_closure:
  assumes zero: "all_models_freeze_count s = 0"
    and own: "\<forall>m \<in> snd ` set (all_models s). owner s m = Some (self_ref s)"
  shows "\<exists>s1. clear refs only_observe s = Some (None, s1) \<and>
           closure_invariant refs s1 \<and> all_models_freeze_count s1 = 0 \<and>
           roots s1 = [] \<and> all_models s1 = [] \<and> title s1 = title s"
proof -
  from clear_loop_only_observe [of "push_all_models_freeze s" refs] zero
  obtain es cs where
    loop: "clear_loop refs only_observe (push_all_models_freeze s) =
      Some (None, (push_all_models_freeze s)\<lparr>roots := [],
         emitted := emitted (push_all_models_freeze s) @ es,
         invoked := invoked (push_all_models_freeze s) @ cs\<rparr>)"
    by (auto simp: push_all_models_freeze_def)
  let ?s2 = "s\<lparr>roots := [], emitted := emitted s @ es, invoked := invoked s @ cs,
    all_models_freeze_count := 0\<rparr>"
  from own recompute_all_models_closure [of ?s2 refs]
  obtain own' models by_name where
    rec: "recompute_all_models refs ?s2 =
      (None, ?s2\<lparr>owner := own', all_models := models, all_models_by_name := by_name\<rparr>)" and
    inv: "closure_invariant refs (?s2\<lparr>owner := own', all_models := models, all_models_by_name := by_name\<rparr>)"
    by auto
  from inv have "models = []"
    by (simp add: closure_invariant_def)
  with loop rec inv zero show ?thesis
    by (simp add: clear_def pop_all_models_freeze_def push_all_models_freeze_def Let_def)
qed


lemma closure_invariant_Document_init:
  "closure_invariant refs (Document_init doc title_kw s0)"
  by (simp add: closure_invariant_def Document_init_def)

section \<open>Adding and removing a root twice\<close>

lemma add_root_only_observe:
  assumes "model \<notin> set (roots s)"
  shows "\<exists>s1. add_root refs only_observe model s = (None, s1) \<and>
           roots s1 = roots s @ [model] \<and>
           emitted s1 = emitted s @ [RootAddedEvent (self_ref s) model] \<and>
           invoked s1 = invoked s @
             map (\<lambda>cb. (cb, RootAddedEvent (self_ref s) model, self_ref s)) (callbacks s)"
proof (cases "all_models_freeze_count s = 0")
  case True
  let ?s2 = "s\<lparr>roots := roots s @ [model], all_models_freeze_count := 0\<rparr>"
  from recompute_all_models_returns [of refs ?s2]
  obtain own' models by_name where
    "recompute_all_models refs ?s2 =
      (None, ?s2\<lparr>owner := own', all_models := models, all_models_by_name := by_name\<rparr>)"
    by blast
  with assms True show ?thesis
    by (simp add: add_root_def Let_def push_all_models_freeze_def pop_all_models_freeze_def
        trigger_on_change_only_observe)
next
  case False
  with assms show ?thesis
    by (simp add: add_root_def Let_def push_all_models_freeze_def pop_all_models_freeze_def
        trigger_on_change_only_observe)
qed

lemma add_root_scenario:
  "roots (snd (add_root scenario_references only_observe 0 scenario_document)) = [0] \<and>
   emitted (snd (add_root scenario_references only_observe 0 scenario_document)) =
     [RootAddedEvent 1 0]"
  by (simp add: add_root_def Let_def push_all_models_freeze_def pop_all_models_freeze_def
        recompute_all_models_def union_references_def scenario_references_def scenario_heap_def
        add_by_name_def name_def attach_document_def detach_document_def List.union_def List.insert_def
        trigger_on_change_only_observe)

section \<open>Emission to listeners\<close>

text \<open>The current document after the call is the one before it, whether the
  listeners return or raise.\<close>

lemma with_self_as_curdoc_restores:
  "curdoc (snd (with_self_as_curdoc f s)) = curdoc s"
  by (simp add: with_self_as_curdoc_def split: prod.splits)

lemma trigger_on_change_restores:
  "curdoc (snd (trigger_on_change env e s)) = curdoc s"
  using with_self_as_curdoc_restores [of "invoke_callbacks env e" "s\<lparr>emitted := emitted s @ [e]\<rparr>"]
  by (simp add: trigger_on_change_def)

text \<open>On Python 2, listeners that only add or remove listeners do not change
  which callbacks an emission calls: those registered when it began, each once,
  with this document as current document.\<close>

lemma for_in_list_snapshot:
  assumes "edits_listeners env"
  shows "\<exists>cbs. for_in_list env e xs s =
           (None, s\<lparr>invoked := invoked s @ map (\<lambda>cb. (cb, e, curdoc s)) xs, callbacks := cbs\<rparr>)"
proof (induction xs arbitrary: s)
  case Nil
  have "s\<lparr>invoked := invoked s @ map (\<lambda>cb. (cb, e, curdoc s)) [], callbacks := callbacks s\<rparr> = s"
    by simp
  then show ?case
    by (metis for_in_list.simps(1))
next
  case (Cons x xs)
  let ?s0 = "s\<lparr>invoked := invoked s @ [(x, e, curdoc s)]\<rparr>"
  from assms obtain cbs1 where "env x e ?s0 = (None, ?s0\<lparr>callbacks := cbs1\<rparr>)"
    unfolding edits_listeners_def by blast
  then have call: "call_callback env e x s = (None, ?s0\<lparr>callbacks := cbs1\<rparr>)"
    by (simp add: call_callback_def)
  from Cons.IH [of "?s0\<lparr>callbacks := cbs1\<rparr>"]
  obtain cbs where "for_in_list env e xs (?s0\<lparr>callbacks := cbs1\<rparr>) =
      (None, s\<lparr>invoked := invoked s @ map (\<lambda>cb. (cb, e, curdoc s)) (x # xs), callbacks := cbs\<rparr>)"
    by auto
  with call have "for_in_list env e (x # xs) s =
      (None, s\<lparr>invoked := invoked s @ map (\<lambda>cb. (cb, e, curdoc s)) (x # xs), callbacks := cbs\<rparr>)"
    by simp
  then show ?case
    by blast
qed

lemma trigger_on_change_snapshot:
  assumes "edits_listeners env" and "python s = Python2"
  shows "\<exists>cbs. trigger_on_change env e s =
           (None, s\<lparr>emitted := emitted s @ [e],
                    invoked := invoked s @ map (\<lambda>cb. (cb, e, self_ref s)) (callbacks s),
                    callbacks := cbs\<rparr>)"
proof -
  let ?s0 = "s\<lparr>emitted := emitted s @ [e], curdoc := self_ref s\<rparr>"
  from for_in_list_snapshot [OF assms(1), of e "callbacks s" ?s0]
  obtain cbs where "for_in_list env e (callbacks s) ?s0 =
     (None, ?s0\<lparr>invoked := invoked ?s0 @ map (\<lambda>cb. (cb, e, curdoc ?s0)) (callbacks s), callbacks := cbs\<rparr>)"
    by blast
  with assms(2) have "trigger_on_change env e s =
           (None, s\<lparr>emitted := emitted s @ [e],
                    invoked := invoked s @ map (\<lambda>cb. (cb, e, self_ref s)) (callbacks s),
                    callbacks := cbs\<rparr>)"
    by (simp add: trigger_on_change_def with_self_as_curdoc_def invoke_callbacks_def)
  then show ?thesis
    by blast
qed

text \<open>Claim C6 at a listener that registers another listener while an event is
  dispatched. On Python 3 the loop is over a view of \<open>_callbacks\<close>: the dictionary
  has grown when the loop asks for the next entry, and \<open>_trigger_on_change\<close> raises
  \<open>RuntimeError\<close>. On Python 2 the loop is over a list made when the event was
  emitted, and it returns. The current document is restored in both.\<close>

theorem trigger_on_change_registering_listener:
  "trigger_on_change registering_listener (TitleChangedEvent 1 ''X'')
     (scenario_document\<lparr>python := Python3\<rparr>) =
     (Some RuntimeError,
      scenario_document\<lparr>python := Python3, emitted := [TitleChangedEvent 1 ''X''],
        invoked := [(5, TitleChangedEvent 1 ''X'', 1)], callbacks := [5, 6], curdoc := 0\<rparr>) \<and>
   trigger_on_change registering_listener (TitleChangedEvent 1 ''X'')
     (scenario_document\<lparr>python := Python2\<rparr>) =
     (None,
      scenario_document\<lparr>python := Python2, emitted := [TitleChangedEvent 1 ''X''],
        invoked := [(5, TitleChangedEvent 1 ''X'', 1)], callbacks := [5, 6], curdoc := 0\<rparr>)"
  by (simp add: trigger_on_change_def with_self_as_curdoc_def invoke_callbacks_def
      for_in_view.simps call_callback_def registering_listener_def on_change_def)

section \<open>Values through JSON\<close>

lemma sequence_map_Inr:
  "(\<And>x. x \<in> set xs \<Longrightarrow> f x = Inr (g x)) \<Longrightarrow> sequence (map f xs) = Inr (map g xs)"
  by (induction xs) simp_all

lemma from_json_value_to_json_value:
  assumes "ref_free v"
    and "\<And>m. m \<in> set (models_in v) \<Longrightarrow> map_of models (obj_id (h m)) = Some (F m)"
  shows "from_json_value models (to_json_value h v) = Inr (rename_models F v)"
  using assms
proof (induction v)
  case (PList vs)
  have "from_json_value models (to_json_value h x) = Inr (rename_models F x)" if "x \<in> set vs" for x
  proof (rule PList.IH [OF that])
    from PList.prems(1) that show "ref_free x"
      by (simp add: list_all_iff)
    fix m assume "m \<in> set (models_in x)"
    with that have "m \<in> set (models_in (PList vs))" by auto
    then show "map_of models (obj_id (h m)) = Some (F m)"
      by (rule PList.prems(2))
  qed
  then have "sequence (map (from_json_value models \<circ> to_json_value h) vs) =
      Inr (map (rename_models F) vs)"
    by (intro sequence_map_Inr) simp
  then show ?case
    by simp
qed simp_all

lemma from_json_value_renamed:
  "ref_free v \<Longrightarrow> from_json_value models (rename_models F v) = Inr (rename_models F v)"
proof (induction v)
  case (PList vs)
  then have "from_json_value models (rename_models F x) = Inr (rename_models F x)"
    if "x \<in> set vs" for x
    using that by (simp add: list_all_iff)
  then have "sequence (map (from_json_value models \<circ> rename_models F) vs) =
      Inr (map (rename_models F) vs)"
    by (intro sequence_map_Inr) simp
  then show ?case
    by simp
qed simp_all

lemma models_in_rename_models:
  "models_in (rename_models F v) = map F (models_in v)"
  by (induction v) (simp_all add: map_concat comp_def cong: map_cong)

lemma no_models_to_json_value:
  "models_in v = [] \<Longrightarrow> to_json_value h v = v"
proof (induction v)
  case (PList vs)
  then have "to_json_value h x = x" if "x \<in> set vs" for x
    using that by simp
  then show ?case
    by (simp add: map_idI)
qed simp_all

lemma no_models_rename_models:
  "models_in v = [] \<Longrightarrow> rename_models F v = v"
proof (induction v)
  case (PList vs)
  then have "rename_models F x = x" if "x \<in> set vs" for x
    using that by simp
  then show ?case
    by (simp add: map_idI)
qed simp_all

section \<open>Decoding the attributes of a record\<close>

lemma update_append:
  "k \<notin> fst ` set B \<Longrightarrow> AList.update k v B = B @ [(k, v)]"
  by (induction B) auto

lemma fold_update_append:
  "distinct (map fst A) \<Longrightarrow> fst ` set A \<inter> fst ` set B = {} \<Longrightarrow>
   fold (\<lambda>(k, v). AList.update k v) A B = B @ A"
proof (induction A arbitrary: B)
  case Nil
  then show ?case by simp
next
  case (Cons a A)
  obtain k v where a: "a = (k, v)" by (cases a)
  from Cons.prems a have "k \<notin> fst ` set B" by auto
  then have step: "AList.update k v B = B @ [(k, v)]"
    by (rule update_append)
  have "fold (\<lambda>(k, v). AList.update k v) A (B @ [(k, v)]) = (B @ [(k, v)]) @ A"
    using Cons.prems a by (intro Cons.IH) auto
  with step a show ?case by simp
qed

lemma map_of_map_keyed:
  "map_of (map (\<lambda>(k, v). (k, g k v)) P) p = map_option (g p) (map_of P p)"
  by (induction P) auto

lemma update_map_keyed:
  "distinct (map fst P) \<Longrightarrow> p \<in> fst ` set P \<Longrightarrow>
   AList.update p w (map (\<lambda>(k, v). (k, g k v)) P) =
     map (\<lambda>(k, v). (k, if k = p then w else g k v)) P"
proof (induction P)
  case Nil
  then show ?case by simp
next
  case (Cons a P)
  obtain k v where a: "a = (k, v)" by (cases a)
  show ?case
  proof (cases "k = p")
    case True
    with Cons.prems a have "p \<notin> fst ` set P" by auto
    then have "map (\<lambda>(k, v). (k, if k = p then w else g k v)) P = map (\<lambda>(k, v). (k, g k v)) P"
      by (intro map_cong refl) force
    with True a show ?thesis by simp
  next
    case False
    with Cons a show ?thesis by auto
  qed
qed

lemma decode_refs_renames:
  assumes dist: "distinct (map fst P)"
    and vals: "\<And>k v. (k, v) \<in> set P \<Longrightarrow>
      ref_free v \<and> (\<forall>m \<in> set (models_in v). map_of R (obj_id (h m)) = Some (F m))"
  shows "decode_refs R ps
      (map (\<lambda>(k, v). (k, if k \<in> S then rename_models F v else to_json_value h v)) P) =
    Inr (map (\<lambda>(k, v). (k, if k \<in> S \<union> set ps then rename_models F v else to_json_value h v)) P)"
proof (induction ps arbitrary: S)
  case Nil
  then show ?case by simp
next
  case (Cons p ps)
  let ?g = "\<lambda>S k v. if k \<in> S then rename_models F v else to_json_value h v"
  let ?A = "\<lambda>S. map (\<lambda>(k, v). (k, ?g S k v)) P"
  have union: "insert p S \<union> set ps = S \<union> set (p # ps)" by auto
  show ?case
  proof (cases "map_of P p")
    case None
    then have "p \<notin> fst ` set P"
      by (simp add: map_of_eq_None_iff)
    then have same: "?A (insert p S) = ?A S"
      by (intro map_cong refl) force
    from None have "map_of (?A S) p = None"
      by (simp add: map_of_map_keyed)
    then have "decode_refs R (p # ps) (?A S) = decode_refs R ps (?A S)"
      by simp
    also have "\<dots> = decode_refs R ps (?A (insert p S))"
      by (simp only: same)
    also have "\<dots> = Inr (?A (insert p S \<union> set ps))"
      by (rule Cons.IH)
    finally show ?thesis
      by (simp only: union)
  next
    case (Some v)
    then have mem: "(p, v) \<in> set P"
      by (rule map_of_SomeD)
    then have keys: "p \<in> fst ` set P"
      by force
    from vals [OF mem] have rf: "ref_free v"
      and ms: "\<And>m. m \<in> set (models_in v) \<Longrightarrow> map_of R (obj_id (h m)) = Some (F m)"
      by auto
    have look: "map_of (?A S) p = Some (?g S p v)"
      using Some by (simp add: map_of_map_keyed)
    have dec: "from_json_value R (?g S p v) = Inr (rename_models F v)"
      using from_json_value_to_json_value [of v R h F, OF rf ms] from_json_value_renamed [OF rf]
      by simp
    have "AList.update p (rename_models F v) (?A S) =
        map (\<lambda>(k, v'). (k, if k = p then rename_models F v else ?g S k v')) P"
      using update_map_keyed [OF dist keys, of "rename_models F v" "?g S"] by simp
    also have "\<dots> = ?A (insert p S)"
    proof (intro map_cong refl)
      fix x assume x: "x \<in> set P"
      obtain k v' where kv: "x = (k, v')" by (cases x)
      have "v' = v" if "k = p"
        using that x kv map_of_is_SomeI [OF dist, of p v'] Some by simp
      then show "(case x of (k, v') \<Rightarrow> (k, if k = p then rename_models F v else ?g S k v')) =
          (case x of (k, v) \<Rightarrow> (k, ?g (insert p S) k v))"
        using kv by auto
    qed
    finally have upd: "AList.update p (rename_models F v) (?A S) = ?A (insert p S)" .
    from look dec have "decode_refs R (p # ps) (?A S) =
        decode_refs R ps (AList.update p (rename_models F v) (?A S))"
      by simp
    also have "\<dots> = decode_refs R ps (?A (insert p S))"
      by (simp only: upd)
    also have "\<dots> = Inr (?A (insert p S \<union> set ps))"
      by (rule Cons.IH)
    finally show ?thesis
      by (simp only: union)
  qed
qed

section \<open>Properties of the title\<close>

text \<open>What every call of a listener preserves, an emission preserves, on Python 2
  and on Python 3, whether the listeners return or raise.\<close>

lemma for_in_list_preserves:
  assumes keep: "\<And>cb e s. P s \<Longrightarrow> P (snd (env cb e s))"
    and inv: "\<And>s x. P (s\<lparr>invoked := x\<rparr>) = P s"
  shows "P s \<Longrightarrow> P (snd (for_in_list env e cbs s))"
proof (induction cbs arbitrary: s)
  case Nil
  then show ?case by simp
next
  case (Cons cb cbs)
  obtain r s1 where call: "call_callback env e cb s = (r, s1)"
    by (cases "call_callback env e cb s")
  have "P (snd (call_callback env e cb s))"
    unfolding call_callback_def using Cons.prems by (intro keep) (simp add: inv)
  with call have s1: "P s1" by simp
  show ?case
  proof (cases r)
    case None
    with call Cons.IH [OF s1] show ?thesis by simp
  next
    case (Some err)
    with call s1 show ?thesis by simp
  qed
qed

lemma for_in_view_preserves:
  assumes keep: "\<And>cb e s. P s \<Longrightarrow> P (snd (env cb e s))"
    and inv: "\<And>s x. P (s\<lparr>invoked := x\<rparr>) = P s"
  shows "P s \<Longrightarrow> P (snd (for_in_view env e n i s))"
proof (induction "n - i" arbitrary: i s)
  case 0
  then show ?case
    by (subst for_in_view.simps) simp
next
  case (Suc k)
  show ?case
  proof (cases "length (callbacks s) \<noteq> n \<or> n \<le> i")
    case True
    with Suc.prems show ?thesis
      by (subst for_in_view.simps) auto
  next
    case False
    obtain r s1 where call: "call_callback env e (callbacks s ! i) s = (r, s1)"
      by (cases "call_callback env e (callbacks s ! i) s")
    have "P (snd (call_callback env e (callbacks s ! i) s))"
      unfolding call_callback_def using Suc.prems by (intro keep) (simp add: inv)
    with call have s1: "P s1" by simp
    show ?thesis
    proof (cases r)
      case None
      have "k = n - Suc i" using Suc.hyps(2) by simp
      from Suc.hyps(1) [OF this s1] call None False show ?thesis
        by (subst for_in_view.simps) simp
    next
      case (Some err)
      with call s1 False show ?thesis
        by (subst for_in_view.simps) simp
    qed
  qed
qed

lemma trigger_on_change_preserves:
  assumes keep: "\<And>cb e s. P s \<Longrightarrow> P (snd (env cb e s))"
    and inv: "\<And>s x. P (s\<lparr>invoked := x\<rparr>) = P s"
    and cur: "\<And>s x. P (s\<lparr>curdoc := x\<rparr>) = P s"
  shows "P (s\<lparr>emitted := emitted s @ [e]\<rparr>) \<Longrightarrow> P (snd (trigger_on_change env e s))"
proof -
  assume start: "P (s\<lparr>emitted := emitted s @ [e]\<rparr>)"
  let ?s0 = "s\<lparr>emitted := emitted s @ [e], curdoc := self_ref s\<rparr>"
  from start have s0: "P ?s0" by (simp add: cur)
  have "P (snd (invoke_callbacks env e ?s0))"
    using for_in_list_preserves [of P env ?s0 e] for_in_view_preserves [of P env ?s0 e] keep inv s0
    by (cases "python s") (simp_all add: invoke_callbacks_def)
  then show ?thesis
    by (cases "invoke_callbacks env e ?s0")
      (simp add: trigger_on_change_def with_self_as_curdoc_def cur)
qed

text \<open>Claim C7, as the code has it. Setting the title to \<open>None\<close> raises \<open>ValueError\<close>
  and leaves the document as it was; setting it to the title it has returns
  without any change or event, whatever the listeners. Setting it to another
  value, with listeners that do not themselves change the title (they may raise
  and may change anything else), leaves that value stored and exactly one more
  \<open>TitleChangedEvent\<close> emitted, carrying the value.\<close>

theorem title_setter_stores_and_emits:
  "title_setter env None s = (Some ValueError, s) \<and>
   (title s = Some t \<longrightarrow> title_setter env (Some t) s = (None, s)) \<and>
   (title s \<noteq> Some t \<and> keeps title env \<and> keeps title_events env \<longrightarrow>
      title (snd (title_setter env (Some t) s)) = Some t \<and>
      title_events (snd (title_setter env (Some t) s)) =
        title_events s @ [TitleChangedEvent (self_ref s) t])"
proof (intro conjI impI)
  show "title_setter env None s = (Some ValueError, s)"
    by (simp add: title_setter_def)
  show "title_setter env (Some t) s = (None, s)" if "title s = Some t"
    using that by (simp add: title_setter_def)
next
  assume a: "title s \<noteq> Some t \<and> keeps title env \<and> keeps title_events env"
  let ?e = "TitleChangedEvent (self_ref s) t"
  let ?s1 = "s\<lparr>title := Some t\<rparr>"
  from a have set: "title_setter env (Some t) s = trigger_on_change env ?e ?s1"
    by (simp add: title_setter_def)
  have "title (snd (trigger_on_change env ?e ?s1)) = Some t"
    using a by (intro trigger_on_change_preserves [where P = "\<lambda>s. title s = Some t"])
      (simp_all add: keeps_def)
  with set show "title (snd (title_setter env (Some t) s)) = Some t"
    by simp
  have "title_events (snd (trigger_on_change env ?e ?s1)) = title_events s @ [?e]"
    using a by (intro trigger_on_change_preserves
        [where P = "\<lambda>s'. title_events s' = title_events s @ [?e]"])
      (simp_all add: keeps_def title_events_def)
  with set show "title_events (snd (title_setter env (Some t) s)) = title_events s @ [?e]"
    by simp
qed


text \<open>The first scenario of the specification with a listener that raises: the
  title \<open>X\<close> is stored and its event emitted although the setter raises; setting
  the title the document has changes nothing.\<close>

theorem title_setter_stores_and_emits_witness:
  "title scenario_document \<noteq> Some ''X'' \<and>
   keeps title raising_listener \<and> keeps title_events raising_listener \<and>
   fst (title_setter raising_listener (Some ''X'') scenario_document) = Some RuntimeError \<and>
   title (snd (title_setter raising_listener (Some ''X'') scenario_document)) = Some ''X'' \<and>
   title_events (snd (title_setter raising_listener (Some ''X'') scenario_document)) =
     [TitleChangedEvent 1 ''X''] \<and>
   title scenario_document = Some DEFAULT_TITLE \<and>
   title_setter raising_listener (Some DEFAULT_TITLE) scenario_document = (None, scenario_document)"
proof -
  have h: "title scenario_document \<noteq> Some ''X'' \<and>
      keeps title raising_listener \<and> keeps title_events raising_listener"
    by (simp add: keeps_def raising_listener_def DEFAULT_TITLE_def)
  have raised: "fst (title_setter raising_listener (Some ''X'') scenario_document) = Some RuntimeError"
    by (simp add: title_setter_def trigger_on_change_def with_self_as_curdoc_def
        invoke_callbacks_def call_callback_def raising_listener_def DEFAULT_TITLE_def)
  from title_setter_stores_and_emits [of raising_listener scenario_document "''X''"]
    title_setter_stores_and_emits [of raising_listener scenario_document DEFAULT_TITLE]
    h raised
  show ?thesis
    by (simp add: title_events_def)
qed

text \<open>Claim C7 as stated fails for a listener that sets the title itself: after
  \<open>doc.title = 'X'\<close> the title is \<open>Y\<close> and two title events were emitted.\<close>

theorem title_setter_counterexample:
  "title scenario_document \<noteq> Some ''X'' \<and>
   fst (title_setter title_resetting_listener (Some ''X'') scenario_document) = None \<and>
   title (snd (title_setter title_resetting_listener (Some ''X'') scenario_document)) = Some ''Y'' \<and>
   emitted (snd (title_setter title_resetting_listener (Some ''X'') scenario_document)) =
     [TitleChangedEvent 1 ''X'', TitleChangedEvent 1 ''Y'']"
  by (simp add: title_setter_def trigger_on_change_def with_self_as_curdoc_def
      invoke_callbacks_def call_callback_def title_resetting_listener_def
      only_observe_def DEFAULT_TITLE_def)

section \<open>Adding a root twice, whatever the listeners do\<close>

lemma pop_all_models_freeze_returns:
  "\<exists>s1. pop_all_models_freeze refs s = (None, s1) \<and> roots s1 = roots s \<and>
     emitted s1 = emitted s \<and> self_ref s1 = self_ref s \<and> heap s1 = heap s"
proof (cases "all_models_freeze_count s - 1 = 0")
  case True
  from recompute_all_models_returns
    [of refs "s\<lparr>all_models_freeze_count := all_models_freeze_count s - 1\<rparr>"]
  obtain own' models by_name where
    "recompute_all_models refs (s\<lparr>all_models_freeze_count := all_models_freeze_count s - 1\<rparr>) =
      (None, s\<lparr>all_models_freeze_count := all_models_freeze_count s - 1,
         owner := own', all_models := models, all_models_by_name := by_name\<rparr>)"
    by blast
  with True show ?thesis
    by (simp add: pop_all_models_freeze_def Let_def)
next
  case False
  then show ?thesis
    by (simp add: pop_all_models_freeze_def Let_def)
qed

text \<open>Claim C8, as the code has it. With listeners that do not themselves add or
  remove roots (they may raise and may change anything else), a second
  \<open>add_root(m)\<close> returns the state the first one left, unchanged; the two calls
  emit one \<open>RootAddedEvent\<close> when \<open>m\<close> was not a root and none when it was.
  \<open>remove_root\<close> of a model that is not a root changes nothing, whatever the
  listeners.\<close>

theorem add_root_twice_same:
  "(keeps roots env \<and> keeps root_added_events env \<longrightarrow>
      (\<exists>r s1. add_root refs env model s = (r, s1) \<and>
         add_root refs env model s1 = (None, s1) \<and>
         root_added_events s1 =
           root_added_events s @
             (if model \<in> set (roots s) then [] else [RootAddedEvent (self_ref s) model]))) \<and>
   (model \<notin> set (roots s) \<longrightarrow> remove_root refs env model s = (None, s))"
proof (intro conjI impI)
  assume "model \<notin> set (roots s)"
  then show "remove_root refs env model s = (None, s)"
    by (simp add: remove_root_def)
next
  assume k: "keeps roots env \<and> keeps root_added_events env"
  show "\<exists>r s1. add_root refs env model s = (r, s1) \<and>
         add_root refs env model s1 = (None, s1) \<and>
         root_added_events s1 =
           root_added_events s @
             (if model \<in> set (roots s) then [] else [RootAddedEvent (self_ref s) model])"
  proof (cases "model \<in> set (roots s)")
    case True
    then show ?thesis
      by (simp add: add_root_def)
  next
    case False
    let ?s2 = "(push_all_models_freeze s)\<lparr>roots := roots (push_all_models_freeze s) @ [model]\<rparr>"
    let ?e = "RootAddedEvent (self_ref s) model"
    from pop_all_models_freeze_returns [of refs ?s2]
    obtain s3 where pop: "pop_all_models_freeze refs ?s2 = (None, s3)"
      and r3: "roots s3 = roots s @ [model]" and e3: "emitted s3 = emitted s"
      and d3: "self_ref s3 = self_ref s"
      by (auto simp: push_all_models_freeze_def)
    from False pop d3 have run: "add_root refs env model s = trigger_on_change env ?e s3"
      by (simp add: add_root_def Let_def)
    have roots: "roots (snd (trigger_on_change env ?e s3)) = roots s @ [model]"
      using k r3 by (intro trigger_on_change_preserves [where P = "\<lambda>s'. roots s' = roots s @ [model]"])
        (simp_all add: keeps_def)
    have events: "root_added_events (snd (trigger_on_change env ?e s3)) = root_added_events s @ [?e]"
      using k e3 by (intro trigger_on_change_preserves
          [where P = "\<lambda>s'. root_added_events s' = root_added_events s @ [?e]"])
        (simp_all add: keeps_def root_added_events_def)
    from roots have "add_root refs env model (snd (trigger_on_change env ?e s3)) =
        (None, snd (trigger_on_change env ?e s3))"
      by (simp add: add_root_def)
    with run events False show ?thesis
      by (cases "trigger_on_change env ?e s3") simp
  qed
qed

lemma add_root_scenario_raising:
  "fst (add_root scenario_references raising_listener 0 scenario_document) = Some RuntimeError \<and>
   roots (snd (add_root scenario_references raising_listener 0 scenario_document)) = [0] \<and>
   emitted (snd (add_root scenario_references raising_listener 0 scenario_document)) =
     [RootAddedEvent 1 0]"
  by (simp add: add_root_def Let_def push_all_models_freeze_def pop_all_models_freeze_def
        recompute_all_models_def union_references_def scenario_references_def scenario_heap_def
        add_by_name_def name_def attach_document_def detach_document_def List.union_def List.insert_def
        trigger_on_change_def with_self_as_curdoc_def invoke_callbacks_def call_callback_def
        raising_listener_def)

text \<open>\<open>A\<close> is not a root of the fresh document, whose listener raises: removing it
  changes nothing; adding it raises after the root is added and the event
  emitted, and adding it again changes nothing.\<close>

theorem add_root_twice_same_witness:
  "keeps roots raising_listener \<and> keeps root_added_events raising_listener \<and>
   0 \<notin> set (roots scenario_document) \<and>
   remove_root scenario_references raising_listener 0 scenario_document = (None, scenario_document) \<and>
   (\<exists>r s1. add_root scenario_references raising_listener 0 scenario_document = (r, s1) \<and>
      add_root scenario_references raising_listener 0 s1 = (None, s1) \<and>
      root_added_events s1 = [RootAddedEvent 1 0]) \<and>
   fst (add_root scenario_references raising_listener 0 scenario_document) = Some RuntimeError \<and>
   roots (snd (add_root scenario_references raising_listener 0 scenario_document)) = [0]"
proof -
  have h: "keeps roots raising_listener \<and> keeps root_added_events raising_listener"
    by (simp add: keeps_def raising_listener_def)
  from add_root_twice_same [where env = raising_listener and refs = scenario_references
      and model = 0 and s = scenario_document] h add_root_scenario_raising
  show ?thesis
    by (simp add: root_added_events_def)
qed

text \<open>Claim C8 as stated fails in two ways. With \<open>A\<close> a root already, two more calls
  \<open>add_root(A)\<close> emit no event at all. With a listener that removes each root it
  is told of, \<open>A\<close> is not a root after the first call, so the second call adds
  it again and a second \<open>RootAddedEvent\<close> is emitted.\<close>

theorem add_root_twice_counterexample:
  "0 \<in> set (roots (snd (add_root scenario_references only_observe 0 scenario_document))) \<and>
   emitted (snd (add_root scenario_references only_observe 0
       (snd (add_root scenario_references only_observe 0
          (snd (add_root scenario_references only_observe 0 scenario_document)))))) =
     emitted (snd (add_root scenario_references only_observe 0 scenario_document)) \<and>
   0 \<notin> set (roots scenario_document) \<and>
   root_added_events
     (snd (add_root scenario_references (root_removing_listener scenario_references) 0
        scenario_document)) = [RootAddedEvent 1 0] \<and>
   root_added_events
     (snd (add_root scenario_references (root_removing_listener scenario_references) 0
        (snd (add_root scenario_references (root_removing_listener scenario_references) 0
           scenario_document)))) = [RootAddedEvent 1 0, RootAddedEvent 1 0]"
proof -
  have r: "0 \<in> set (roots (snd (add_root scenario_references only_observe 0 scenario_document)))"
    using add_root_scenario by simp
  then have "add_root scenario_references only_observe 0
      (snd (add_root scenario_references only_observe 0 scenario_document)) =
      (None, snd (add_root scenario_references only_observe 0 scenario_document))"
    by (simp add: add_root_def)
  with r have a: "0 \<in> set (roots (snd (add_root scenario_references only_observe 0 scenario_document))) \<and>
   emitted (snd (add_root scenario_references only_observe 0
       (snd (add_root scenario_references only_observe 0
          (snd (add_root scenario_references only_observe 0 scenario_document)))))) =
     emitted (snd (add_root scenario_references only_observe 0 scenario_document))"
    by simp
  have b: "root_added_events
     (snd (add_root scenario_references (root_removing_listener scenario_references) 0
        scenario_document)) = [RootAddedEvent 1 0] \<and>
   root_added_events
     (snd (add_root scenario_references (root_removing_listener scenario_references) 0
        (snd (add_root scenario_references (root_removing_listener scenario_references) 0
           scenario_document)))) = [RootAddedEvent 1 0, RootAddedEvent 1 0]"
    by (simp add: add_root_def remove_root_def Let_def push_all_models_freeze_def
        pop_all_models_freeze_def recompute_all_models_def union_references_def
        scenario_references_def scenario_heap_def add_by_name_def name_def
        attach_document_def detach_document_def List.union_def List.insert_def
        trigger_on_change_def with_self_as_curdoc_def invoke_callbacks_def call_callback_def
        root_removing_listener_def only_observe_def root_added_events_def)
  from a b show ?thesis
    by simp
qed

section \<open>Every observable state satisfies the closure invariant\<close>

text \<open>Observability does not depend on the title, the current document or what
  was recorded.\<close>

lemma observable_fields [simp]:
  "observable refs (s\<lparr>invoked := x\<rparr>) = observable refs s"
  "observable refs (s\<lparr>curdoc := y\<rparr>) = observable refs s"
  "observable refs (s\<lparr>emitted := z\<rparr>) = observable refs s"
  "observable refs (s\<lparr>title := t\<rparr>) = observable refs s"
  by (simp_all add: observable_def closure_invariant_def)


















section \<open>Instantiating the records\<close>

lemma conformsD:
  assumes "conforms classes obj"
  obtains cls where "classes (class_name obj) = Some cls"
    and "distinct (map fst (obj_props obj))"
    and "\<And>k v. (k, v) \<in> set (obj_props obj) \<Longrightarrow>
           k \<in> set (properties cls) \<and> ref_free v \<and>
           (models_in v \<noteq> [] \<longrightarrow> k \<in> set (properties_with_refs cls))"
  using assms
  by (auto simp: conforms_def list_all_iff split: option.splits)

lemma children_member:
  "(k, v) \<in> set (obj_props (h m)) \<Longrightarrow> set (models_in v) \<subseteq> set (children h m)"
  by (auto simp: children_def)

lemma decode_conforming:
  assumes conf: "conforms classes (h m)"
    and cls: "classes (class_name (h m)) = Some cls"
    and kids: "\<And>m'. m' \<in> set (children h m) \<Longrightarrow> map_of R (obj_id (h m')) = Some (F m')"
  shows "decode_refs R (properties_with_refs cls) (to_json_like h m) =
           Inr (map (\<lambda>(k, v). (k, rename_models F v)) (obj_props (h m)))"
    and "filter (\<lambda>(key, v). key \<in> set (properties cls))
           (map (\<lambda>(k, v). (k, rename_models F v)) (obj_props (h m))) =
         map (\<lambda>(k, v). (k, rename_models F v)) (obj_props (h m))"
proof -
  let ?P = "obj_props (h m)"
  from conf cls have dist: "distinct (map fst ?P)"
    and props: "\<And>k v. (k, v) \<in> set ?P \<Longrightarrow>
           k \<in> set (properties cls) \<and> ref_free v \<and>
           (models_in v \<noteq> [] \<longrightarrow> k \<in> set (properties_with_refs cls))"
    by (auto elim!: conformsD)
  have vals: "ref_free v \<and> (\<forall>m' \<in> set (models_in v). map_of R (obj_id (h m')) = Some (F m'))"
    if "(k, v) \<in> set ?P" for k v
    using that props [OF that] children_member [of k v h m] kids by auto
  have start: "to_json_like h m =
      map (\<lambda>(k, v). (k, if k \<in> {} then rename_models F v else to_json_value h v)) ?P"
    by (simp add: to_json_like_def)
  have "map (\<lambda>(k, v). (k, if k \<in> {} \<union> set (properties_with_refs cls)
                          then rename_models F v else to_json_value h v)) ?P =
      map (\<lambda>(k, v). (k, rename_models F v)) ?P"
  proof (intro map_cong refl)
    fix x assume x: "x \<in> set ?P"
    obtain k v where kv: "x = (k, v)" by (cases x)
    have "to_json_value h v = rename_models F v" if "k \<notin> set (properties_with_refs cls)"
    proof -
      from props [of k v] x kv that have "models_in v = []" by auto
      then show ?thesis
        by (simp add: no_models_to_json_value no_models_rename_models)
    qed
    with kv show "(case x of (k, v) \<Rightarrow>
        (k, if k \<in> {} \<union> set (properties_with_refs cls) then rename_models F v
            else to_json_value h v)) =
      (case x of (k, v) \<Rightarrow> (k, rename_models F v))"
      by auto
  qed
  with decode_refs_renames [of ?P R h F "properties_with_refs cls" "{}", OF dist vals] start
  show "decode_refs R (properties_with_refs cls) (to_json_like h m) =
           Inr (map (\<lambda>(k, v). (k, rename_models F v)) ?P)"
    by simp
  show "filter (\<lambda>(key, v). key \<in> set (properties cls))
           (map (\<lambda>(k, v). (k, rename_models F v)) ?P) =
         map (\<lambda>(k, v). (k, rename_models F v)) ?P"
    using props by (intro filter_True) auto
qed

lemma update_fresh:
  "distinct (map fst attrs) \<Longrightarrow> obj_props obj = [] \<Longrightarrow> update attrs obj = obj\<lparr>obj_props := attrs\<rparr>"
  using fold_update_append [of attrs "[]"] by (simp add: update_def)


lemma construct_ref:
  "construct cls (ref h m) = (h m)\<lparr>obj_props := []\<rparr>"
  by (cases "h m") (simp add: construct_def ref_def)

lemma class_name_props [simp]:
  "class_name (obj\<lparr>obj_props := ps\<rparr>) = class_name obj"
  by (simp add: class_name_def split: option.splits)

lemma instantiate_references_json_returns:
  assumes "distinct (map (\<lambda>m. obj_id (h m)) ms)"
    and "\<forall>m \<in> set ms. classes (class_name (h m)) \<noteq> None"
  shows "\<exists>R H. instantiate_references_json classes (references_json h ms) R0 H0 n =
           Inr (R, H, n + length ms) \<and>
         (\<forall>x. x < n \<longrightarrow> H x = H0 x) \<and>
         (\<forall>i. i \<notin> (\<lambda>m. obj_id (h m)) ` set ms \<longrightarrow> map_of R i = map_of R0 i) \<and>
         (\<forall>m \<in> set ms. \<exists>k. map_of R (obj_id (h m)) = Some k \<and> n \<le> k \<and>
            H k = (h m)\<lparr>obj_props := []\<rparr>)"
  using assms
proof (induction ms arbitrary: R0 H0 n)
  case Nil
  then show ?case by (simp add: references_json_def)
next
  case (Cons m ms)
  from Cons.prems obtain cls where cls: "classes (class_name (h m)) = Some cls"
    by auto
  let ?R1 = "AList.update (obj_id (h m)) n R0"
  let ?H1 = "H0(n := (h m)\<lparr>obj_props := []\<rparr>)"
  have step: "instantiate_references_json classes (references_json h (m # ms)) R0 H0 n =
      instantiate_references_json classes (references_json h ms) ?R1 ?H1 (Suc n)"
    using cls construct_ref [of cls h m]
    by (cases "obj_subtype (h m)") (simp_all add: references_json_def class_name_def ref_def)
  from Cons.prems have "distinct (map (\<lambda>m. obj_id (h m)) ms)"
    and "\<forall>m \<in> set ms. classes (class_name (h m)) \<noteq> None"
    by simp_all
  from Cons.IH [OF this, of ?R1 ?H1 "Suc n"]
  obtain R H where
    res: "instantiate_references_json classes (references_json h ms) ?R1 ?H1 (Suc n) =
           Inr (R, H, Suc n + length ms)" and
    low: "\<forall>x. x < Suc n \<longrightarrow> H x = ?H1 x" and
    other: "\<forall>i. i \<notin> (\<lambda>m. obj_id (h m)) ` set ms \<longrightarrow> map_of R i = map_of ?R1 i" and
    each: "\<forall>m \<in> set ms. \<exists>k. map_of R (obj_id (h m)) = Some k \<and> Suc n \<le> k \<and>
            H k = (h m)\<lparr>obj_props := []\<rparr>"
    by blast
  from Cons.prems(1) have notin: "obj_id (h m) \<notin> (\<lambda>m. obj_id (h m)) ` set ms"
    by auto
  have m: "map_of R (obj_id (h m)) = Some n \<and> n \<le> n \<and> H n = (h m)\<lparr>obj_props := []\<rparr>"
    using other notin low by (simp add: update_conv')
  have "\<forall>x. x < n \<longrightarrow> H x = H0 x"
    using low by simp
  moreover have "\<forall>i. i \<notin> (\<lambda>m. obj_id (h m)) ` set (m # ms) \<longrightarrow> map_of R i = map_of R0 i"
    using other by (simp add: update_conv')
  moreover have "\<forall>m' \<in> set (m # ms). \<exists>k. map_of R (obj_id (h m')) = Some k \<and> n \<le> k \<and>
            H k = (h m')\<lparr>obj_props := []\<rparr>"
    using m each by (auto intro: Suc_leD)
  ultimately show ?case
    using step res by simp
qed

lemma initialize_references_json_returns:
  assumes Fdef: "\<And>m. m \<in> set ms \<Longrightarrow> map_of R (obj_id (h m)) = Some (F m)"
    and inj: "inj_on F (set ms)"
    and conf: "\<And>m. m \<in> set ms \<Longrightarrow> conforms classes (h m)"
    and closed: "\<And>m. m \<in> set ms \<Longrightarrow> set (children h m) \<subseteq> set ms"
  shows "distinct ms2 \<Longrightarrow> set ms2 \<subseteq> set ms \<Longrightarrow>
     (\<forall>m \<in> set ms2. H (F m) = (h m)\<lparr>obj_props := []\<rparr>) \<Longrightarrow>
     \<exists>H'. initialize_references_json classes (references_json h ms2) R H = Inr H' \<and>
       (\<forall>x. x \<notin> F ` set ms2 \<longrightarrow> H' x = H x) \<and>
       (\<forall>m \<in> set ms2. H' (F m) =
          (h m)\<lparr>obj_props := map (\<lambda>(k, v). (k, rename_models F v)) (obj_props (h m))\<rparr>)"
proof (induction ms2 arbitrary: H)
  case Nil
  then show ?case by (simp add: references_json_def)
next
  case (Cons m ms2)
  let ?A = "map (\<lambda>(k, v). (k, rename_models F v)) (obj_props (h m))"
  from Cons.prems have m: "m \<in> set ms" and fresh: "H (F m) = (h m)\<lparr>obj_props := []\<rparr>"
    by simp_all
  from conf [OF m] obtain cls where cls: "classes (class_name (h m)) = Some cls"
    and dist: "distinct (map fst (obj_props (h m)))"
    by (rule conformsD)
  have kids: "map_of R (obj_id (h m')) = Some (F m')" if "m' \<in> set (children h m)" for m'
    using that closed [OF m] Fdef by auto
  note dec = decode_conforming [of classes h m cls R F, OF conf [OF m] cls kids]
  have "distinct (map fst ?A)"
    using dist by (simp add: comp_def case_prod_unfold)
  then have upd: "update ?A (H (F m)) = (h m)\<lparr>obj_props := ?A\<rparr>"
    using fresh by (simp add: update_fresh)
  let ?H1 = "H(F m := (h m)\<lparr>obj_props := ?A\<rparr>)"
  have step: "initialize_references_json classes (references_json h (m # ms2)) R H =
      initialize_references_json classes (references_json h ms2) R ?H1"
    using Fdef [OF m] cls fresh dec upd
    by (simp add: references_json_def ref_def)
  have diff: "F m' \<noteq> F m" if "m' \<in> set ms2" for m'
  proof
    assume "F m' = F m"
    moreover from that Cons.prems have "m' \<in> set ms" "m' \<noteq> m" by auto
    ultimately show False
      using inj m by (auto dest: inj_onD)
  qed
  have fr: "\<forall>m' \<in> set ms2. ?H1 (F m') = (h m')\<lparr>obj_props := []\<rparr>"
    using Cons.prems diff by simp
  from Cons.prems have d: "distinct ms2" and sub: "set ms2 \<subseteq> set ms"
    by simp_all
  from Cons.IH [OF d sub fr]
  obtain H' where res: "initialize_references_json classes (references_json h ms2) R ?H1 = Inr H'"
    and other: "\<forall>x. x \<notin> F ` set ms2 \<longrightarrow> H' x = ?H1 x"
    and each: "\<forall>m' \<in> set ms2. H' (F m') =
          (h m')\<lparr>obj_props := map (\<lambda>(k, v). (k, rename_models F v)) (obj_props (h m'))\<rparr>"
    by blast
  have "F m \<notin> F ` set ms2"
  proof
    assume "F m \<in> F ` set ms2"
    then obtain x where "x \<in> set ms2" and "F m = F x" ..
    with diff [of x] show False by simp
  qed
  with other have "H' (F m) = (h m)\<lparr>obj_props := ?A\<rparr>"
    by simp
  moreover have "\<forall>x. x \<notin> F ` set (m # ms2) \<longrightarrow> H' x = H x"
    using other by simp
  ultimately show ?case
    using step res each by simp
qed

section \<open>Reachable models and renaming\<close>

lemma reach_refl: "m \<in> reach h m"
  by (simp add: reach_def)

lemma reach_children:
  "n \<in> reach h m \<Longrightarrow> c \<in> set (children h n) \<Longrightarrow> c \<in> reach h m"
  by (auto simp: reach_def intro: rtrancl_into_rtrancl)

lemma reach_induct [consumes 1, case_names base step]:
  assumes "n \<in> reach h m"
    and "P m"
    and "\<And>a b. a \<in> reach h m \<Longrightarrow> P a \<Longrightarrow> b \<in> set (children h a) \<Longrightarrow> P b"
  shows "P n"
proof -
  from assms(1) have "(m, n) \<in> {(a, b). b \<in> set (children h a)}\<^sup>*"
    by (simp add: reach_def)
  then show ?thesis
  proof (induction rule: rtrancl_induct)
    case base
    show ?case by (rule assms(2))
  next
    case (step y z)
    from step.hyps(1) have "y \<in> reach h m"
      by (simp add: reach_def)
    with step show ?case
      using assms(3) [of y z] by simp
  qed
qed

lemma reach_closed:
  assumes "\<And>a. a \<in> M \<Longrightarrow> set (children h a) \<subseteq> M" and "m \<in> M" and "n \<in> reach h m"
  shows "n \<in> M"
  using assms(3)
proof (induction rule: reach_induct)
  case base
  show ?case by (rule assms(2))
next
  case (step a b)
  with assms(1) [of a] show ?case by auto
qed

lemma children_renamed:
  "obj_props (H x) = map (\<lambda>(k, v). (k, rename_models F v)) (obj_props (h m)) \<Longrightarrow>
   children H x = map F (children h m)"
  by (simp add: children_def models_in_rename_models map_concat comp_def case_prod_unfold)

lemma reach_renamed:
  assumes closed: "\<And>a. a \<in> M \<Longrightarrow> set (children h a) \<subseteq> M"
    and copy: "\<And>a. a \<in> M \<Longrightarrow> children H (F a) = map F (children h a)"
    and m: "m \<in> M"
  shows "reach H (F m) = F ` reach h m"
proof (intro set_eqI iffI)
  fix y assume "y \<in> reach H (F m)"
  then show "y \<in> F ` reach h m"
  proof (induction rule: reach_induct)
    case base
    show ?case using reach_refl [of m h] by blast
  next
    case (step a b)
    from step.IH obtain n where n: "n \<in> reach h m" and a: "a = F n" ..
    from n have "n \<in> M"
      using reach_closed [OF closed m] by blast
    with step.hyps(2) a copy have "b \<in> F ` set (children h n)"
      by simp
    then obtain c where "c \<in> set (children h n)" and "b = F c" ..
    with n show ?case
      using reach_children [of n h m c] by blast
  qed
next
  fix y assume "y \<in> F ` reach h m"
  then obtain n where n: "n \<in> reach h m" and y: "y = F n" ..
  from n have "F n \<in> reach H (F m)"
  proof (induction rule: reach_induct)
    case base
    show ?case by (rule reach_refl)
  next
    case (step a b)
    from step.hyps(1) have "a \<in> M"
      using reach_closed [OF closed m] by blast
    with step.hyps(2) copy have "F b \<in> set (children H (F a))"
      by simp
    with step.IH show ?case
      by (rule reach_children)
  qed
  with y show "y \<in> reach H (F m)" by simp
qed

section \<open>A document without listeners\<close>

lemma invoke_callbacks_no_listeners:
  "callbacks s = [] \<Longrightarrow> invoke_callbacks env e s = (None, s)"
  by (cases "python s") (simp_all add: invoke_callbacks_def for_in_view.simps)

lemma trigger_on_change_no_listeners:
  "callbacks s = [] \<Longrightarrow>
   trigger_on_change env e s = (None, s\<lparr>emitted := emitted s @ [e]\<rparr>)"
  by (simp add: trigger_on_change_def with_self_as_curdoc_def invoke_callbacks_no_listeners)

lemma recompute_all_models_result:
  "\<exists>own' by_name.
     recompute_all_models refs s =
       (None, s\<lparr>owner := own',
                all_models := fold (\<lambda>m d. AList.update (obj_id (heap s m)) m d)
                  (union_references refs (heap s) (roots s)) [],
                all_models_by_name := by_name\<rparr>)"
proof -
  from fold_add_by_name_returns [of "heap s" "union_references refs (heap s) (roots s)" MultiValuedDict_init]
  obtain by_name where
    "fold (add_by_name (heap s)) (union_references refs (heap s) (roots s)) (Inr MultiValuedDict_init)
       = Inr by_name" ..
  then have "recompute_all_models refs s =
      (None, s\<lparr>owner := fold (attach_document (self_ref s))
           (filter (\<lambda>a. a \<notin> set (remdups (map snd (all_models s))))
              (union_references refs (heap s) (roots s)))
           (fold detach_document
              (filter (\<lambda>d. d \<notin> set (union_references refs (heap s) (roots s)))
                 (remdups (map snd (all_models s))))
              (owner s)),
         all_models := fold (\<lambda>m d. AList.update (obj_id (heap s m)) m d)
           (union_references refs (heap s) (roots s)) [],
         all_models_by_name := by_name\<rparr>)"
    by (simp add: recompute_all_models_def Let_def)
  then show ?thesis
    by blast
qed

lemma add_root_no_listeners:
  assumes none: "callbacks s = []"
    and zero: "all_models_freeze_count s = 0"
    and new: "model \<notin> set (roots s)"
  shows "\<exists>s1. add_root refs env model s = (None, s1) \<and>
           all_models_freeze_count s1 = 0 \<and>
           roots s1 = roots s @ [model] \<and> callbacks s1 = [] \<and> heap s1 = heap s \<and>
           title s1 = title s \<and> self_ref s1 = self_ref s \<and>
           all_models s1 = fold (\<lambda>m d. AList.update (obj_id (heap s m)) m d)
                  (union_references refs (heap s) (roots s @ [model])) []"
proof -
  let ?s2 = "s\<lparr>roots := roots s @ [model], all_models_freeze_count := 0\<rparr>"
  from recompute_all_models_result [of refs ?s2]
  obtain own' by_name where
    rec: "recompute_all_models refs ?s2 =
      (None, ?s2\<lparr>owner := own',
          all_models := fold (\<lambda>m d. AList.update (obj_id (heap s m)) m d)
                  (union_references refs (heap s) (roots s @ [model])) [],
          all_models_by_name := by_name\<rparr>)"
    by auto
  have pop: "pop_all_models_freeze refs ((push_all_models_freeze s)\<lparr>roots := roots s @ [model]\<rparr>) =
      (None, ?s2\<lparr>owner := own',
          all_models := fold (\<lambda>m d. AList.update (obj_id (heap s m)) m d)
                  (union_references refs (heap s) (roots s @ [model])) [],
          all_models_by_name := by_name\<rparr>)"
    using zero rec by (simp add: pop_all_models_freeze_def push_all_models_freeze_def Let_def)
  show ?thesis
    using new pop zero none
    by (simp add: add_root_def Let_def push_all_models_freeze_def trigger_on_change_no_listeners)
qed

lemma add_roots_no_listeners:
  assumes look: "\<And>r. r \<in> set rs \<Longrightarrow> map_of R (obj_id (h r)) = Some (F r)"
  shows "callbacks d = [] \<Longrightarrow> all_models_freeze_count d = 0 \<Longrightarrow>
     all_models d = fold (\<lambda>m a. AList.update (obj_id (heap d m)) m a)
                  (union_references refs (heap d) (roots d)) [] \<Longrightarrow>
     distinct (map F rs2) \<Longrightarrow> set rs2 \<subseteq> set rs \<Longrightarrow> F ` set rs2 \<inter> set (roots d) = {} \<Longrightarrow>
     \<exists>d1. add_roots refs env R (map (\<lambda>r. obj_id (h r)) rs2) d = (None, d1) \<and>
       all_models_freeze_count d1 = 0 \<and>
       roots d1 = roots d @ map F rs2 \<and> callbacks d1 = [] \<and> heap d1 = heap d \<and>
       title d1 = title d \<and> self_ref d1 = self_ref d \<and>
       all_models d1 = fold (\<lambda>m a. AList.update (obj_id (heap d1 m)) m a)
                  (union_references refs (heap d1) (roots d1)) []"
proof (induction rs2 arbitrary: d)
  case Nil
  then show ?case by simp
next
  case (Cons r rs2)
  from Cons.prems have r: "r \<in> set rs" by simp
  have new: "F r \<notin> set (roots d)"
    using Cons.prems(6) by auto
  from add_root_no_listeners [where s = d and model = "F r" and refs = refs and env = env,
      OF Cons.prems(1) Cons.prems(2) new]
  obtain d1 where add: "add_root refs env (F r) d = (None, d1)"
    and zero: "all_models_freeze_count d1 = 0"
    and roots1: "roots d1 = roots d @ [F r]" and none: "callbacks d1 = []"
    and heap1: "heap d1 = heap d" and title1: "title d1 = title d"
    and self1: "self_ref d1 = self_ref d"
    and models1: "all_models d1 = fold (\<lambda>m a. AList.update (obj_id (heap d m)) m a)
                  (union_references refs (heap d) (roots d @ [F r])) []"
    by blast
  from models1 roots1 heap1
  have inv: "all_models d1 = fold (\<lambda>m a. AList.update (obj_id (heap d1 m)) m a)
                  (union_references refs (heap d1) (roots d1)) []"
    by simp
  from Cons.prems have dist: "distinct (map F rs2)" and sub: "set rs2 \<subseteq> set rs"
    by simp_all
  have disj: "F ` set rs2 \<inter> set (roots d1) = {}"
    using Cons.prems(4) Cons.prems(6) roots1 by auto
  from Cons.IH [OF none zero inv dist sub disj]
  obtain d2 where rest: "add_roots refs env R (map (\<lambda>r. obj_id (h r)) rs2) d1 = (None, d2)"
    and fin: "all_models_freeze_count d2 = 0 \<and>
       roots d2 = roots d1 @ map F rs2 \<and> callbacks d2 = [] \<and> heap d2 = heap d1 \<and>
       title d2 = title d1 \<and> self_ref d2 = self_ref d1 \<and>
       all_models d2 = fold (\<lambda>m a. AList.update (obj_id (heap d2 m)) m a)
                  (union_references refs (heap d2) (roots d2)) []"
    by blast
  have "add_roots refs env R (map (\<lambda>r. obj_id (h r)) (r # rs2)) d = (None, d2)"
    using look [OF r] add rest by simp
  with fin roots1 heap1 title1 self1 show ?case
    by simp
qed

lemma title_setter_no_listeners:
  "callbacks s = [] \<Longrightarrow>
   \<exists>s1. title_setter env (Some t) s = (None, s1) \<and> title s1 = Some t \<and> roots s1 = roots s \<and>
     all_models s1 = all_models s \<and> heap s1 = heap s \<and> self_ref s1 = self_ref s"
  by (simp add: title_setter_def trigger_on_change_no_listeners)

lemma keys_fold_update:
  "fst ` set (fold (\<lambda>m d. AList.update (f m) m d) ms d) = fst ` set d \<union> f ` set ms"
proof (induction ms arbitrary: d)
  case Nil
  then show ?case by simp
next
  case (Cons m ms)
  have "fst ` set (AList.update (f m) m d) = insert (f m) (fst ` set d)"
    using dom_update [of "f m" m d] by simp
  with Cons.IH [of "AList.update (f m) m d"] show ?case
    by auto
qed

section \<open>The JSON form read back\<close>

lemma closure_invariant_models:
  assumes "closure_invariant refs s"
  shows "all_models s = map (\<lambda>m. (obj_id (heap s m), m)) (map snd (all_models s))"
    and "distinct (map (\<lambda>m. obj_id (heap s m)) (map snd (all_models s)))"
    and "set (map snd (all_models s)) = (\<Union>r \<in> set (roots s). set (refs (heap s) r))"
proof -
  from assms have graph: "set (all_models s) =
      (\<lambda>m. (obj_id (heap s m), m)) ` (\<Union>r \<in> set (roots s). set (refs (heap s) r))"
    and dist: "distinct (map fst (all_models s))"
    by (simp_all add: closure_invariant_def)
  have each: "p = (obj_id (heap s (snd p)), snd p)" if "p \<in> set (all_models s)" for p
    using that graph by auto
  then have "map (\<lambda>p. (obj_id (heap s (snd p)), snd p)) (all_models s) = all_models s"
    by (intro map_idI) simp
  then show eq: "all_models s = map (\<lambda>m. (obj_id (heap s m), m)) (map snd (all_models s))"
    by (simp add: comp_def)
  have "map fst (all_models s) = map (\<lambda>m. obj_id (heap s m)) (map snd (all_models s))"
    by (subst eq) (simp add: comp_def)
  with dist show "distinct (map (\<lambda>m. obj_id (heap s m)) (map snd (all_models s)))"
    by simp
  have "snd ` set (all_models s) = (\<Union>r \<in> set (roots s). set (refs (heap s) r))"
    by (simp only: graph image_image snd_conv image_ident)
  then show "set (map snd (all_models s)) = (\<Union>r \<in> set (roots s). set (refs (heap s) r))"
    by simp
qed


lemma models_closed:
  assumes "closure_invariant refs s" and "references_closure refs (heap s) (roots s)"
  shows "snd ` set (all_models s) = (\<Union>r \<in> set (roots s). reach (heap s) r)"
    and "set (roots s) \<subseteq> snd ` set (all_models s)"
    and "\<And>a. a \<in> snd ` set (all_models s) \<Longrightarrow> set (children (heap s) a) \<subseteq> snd ` set (all_models s)"
proof -
  from closure_invariant_models(3) [OF assms(1)] assms(2)
  show eq: "snd ` set (all_models s) = (\<Union>r \<in> set (roots s). reach (heap s) r)"
    by (simp add: references_closure_def list_all_iff)
  show "set (roots s) \<subseteq> snd ` set (all_models s)"
    unfolding eq using reach_refl by blast
  show "set (children (heap s) a) \<subseteq> snd ` set (all_models s)" if "a \<in> snd ` set (all_models s)" for a
    using that unfolding eq by (auto intro: reach_children)
qed

lemma from_json_to_json_copies:
  assumes ttl: "title s = Some t"
    and inv: "closure_invariant refs s"
    and rts: "distinct (roots s)"
    and old: "references_closure refs (heap s) (roots s)"
    and conf: "\<forall>m \<in> snd ` set (all_models s). conforms classes (heap s m)"
  shows "\<exists>d F. from_json classes refs env doc (to_json version s) p = (None, d) \<and>
      self_ref d = doc \<and> title d = Some t \<and> roots d = map F (roots s) \<and>
      (\<forall>m \<in> snd ` set (all_models s).
         obj_id (heap d (F m)) = obj_id (heap s m) \<and>
         children (heap d) (F m) = map F (children (heap s) m)) \<and>
      all_models d = fold (\<lambda>m a. AList.update (obj_id (heap d m)) m a)
                  (union_references refs (heap d) (roots d)) []"
proof -
  let ?h = "heap s"
  let ?ms = "map snd (all_models s)"
  let ?n = "heap_next p + length ?ms"
  have M: "set ?ms = snd ` set (all_models s)" by simp
  note closed = models_closed(3) [OF inv old]
  note rootsM = models_closed(2) [OF inv old]
  note ids = closure_invariant_models(2) [OF inv]
  from ids have dms: "distinct ?ms"
    and inj_ids: "inj_on (\<lambda>m. obj_id (?h m)) (set ?ms)"
    by (simp_all only: distinct_map)
  have cls: "\<forall>m \<in> set ?ms. classes (class_name (?h m)) \<noteq> None"
    using conf by (auto elim!: conformsD)
  from instantiate_references_json_returns [where h = ?h and ms = ?ms and classes = classes
      and ?R0.0 = "[]" and ?H0.0 = "heap p" and n = "heap_next p", OF ids cls]
  obtain R H1 where
    inst: "instantiate_references_json classes (references_json ?h ?ms) [] (heap p) (heap_next p) =
           Inr (R, H1, ?n)" and
    each: "\<forall>m \<in> set ?ms. \<exists>k. map_of R (obj_id (?h m)) = Some k \<and> heap_next p \<le> k \<and>
            H1 k = (?h m)\<lparr>obj_props := []\<rparr>"
    by blast
  define F where "F m = the (map_of R (obj_id (?h m)))" for m
  have Fdef: "map_of R (obj_id (?h m)) = Some (F m)" if "m \<in> set ?ms" for m
    using each that by (auto simp: F_def)
  have fresh: "H1 (F m) = (?h m)\<lparr>obj_props := []\<rparr>" if "m \<in> set ?ms" for m
    using each that by (auto simp: F_def)
  have injF: "inj_on F (set ?ms)"
  proof (rule inj_onI)
    fix a b assume a: "a \<in> set ?ms" and b: "b \<in> set ?ms" and eq: "F a = F b"
    from fresh [OF a] fresh [OF b] eq
    have "(?h a)\<lparr>obj_props := []\<rparr> = (?h b)\<lparr>obj_props := []\<rparr>" by simp
    then have "obj_id ((?h a)\<lparr>obj_props := []\<rparr>) = obj_id ((?h b)\<lparr>obj_props := []\<rparr>)"
      by (rule arg_cong)
    then have "obj_id (?h a) = obj_id (?h b)" by simp
    with inj_ids a b show "a = b"
      by (auto dest: inj_onD)
  qed
  have conf': "conforms classes (?h m)" if "m \<in> set ?ms" for m
    using conf that by auto
  have closed': "set (children ?h m) \<subseteq> set ?ms" if "m \<in> set ?ms" for m
    using closed [of m] that by simp
  have fr: "\<forall>m \<in> set ?ms. H1 (F m) = (?h m)\<lparr>obj_props := []\<rparr>"
    using fresh by blast
  from initialize_references_json_returns [where ms = ?ms and R = R and h = ?h and F = F
      and classes = classes and ?ms2.0 = ?ms and H = H1, OF Fdef injF conf' closed' dms subset_refl fr]
  obtain H2 where
    init: "initialize_references_json classes (references_json ?h ?ms) R H1 = Inr H2" and
    copies: "\<forall>m \<in> set ?ms. H2 (F m) =
          (?h m)\<lparr>obj_props := map (\<lambda>(k, v). (k, rename_models F v)) (obj_props (?h m))\<rparr>"
    by blast
  let ?d0 = "Document_init doc None (p\<lparr>heap := H2, heap_next := ?n\<rparr>)"
  have look: "map_of R (obj_id (?h r)) = Some (F r)" if "r \<in> set (roots s)" for r
    using that rootsM Fdef by auto
  have dF: "distinct (map F (roots s))"
    using rts rootsM injF by (auto simp: distinct_map intro: inj_on_subset)
  have start: "all_models ?d0 = fold (\<lambda>m a. AList.update (obj_id (heap ?d0 m)) m a)
                  (union_references refs (heap ?d0) (roots ?d0)) []"
    by (simp add: Document_init_def union_references_def)
  from add_roots_no_listeners [where rs = "roots s" and R = R and h = ?h and F = F and d = ?d0
      and refs = refs and ?rs2.0 = "roots s" and env = env, OF look _ _ start dF subset_refl]
  obtain d1 where
    adds: "add_roots refs env R (map (\<lambda>r. obj_id (?h r)) (roots s)) ?d0 = (None, d1)" and
    d1: "roots d1 = roots ?d0 @ map F (roots s)" "callbacks d1 = []" "heap d1 = heap ?d0"
      "self_ref d1 = self_ref ?d0"
      "all_models d1 = fold (\<lambda>m a. AList.update (obj_id (heap d1 m)) m a)
                  (union_references refs (heap d1) (roots d1)) []"
    by (auto simp: Document_init_def)
  from title_setter_no_listeners [OF d1(2), of env t]
  obtain d where
    sets: "title_setter env (Some t) d1 = (None, d)" and
    d: "title d = Some t" "roots d = roots d1" "all_models d = all_models d1" "heap d = heap d1"
      "self_ref d = self_ref d1"
    by blast
  have res: "from_json classes refs env doc (to_json version s) p = (None, d)"
    using inst init adds sets ttl
    by (simp add: from_json_def to_json_def to_json_string_def Let_def)
  have heap_d: "heap d = H2"
    using d(4) d1(3) by (simp add: Document_init_def)
  have "obj_id (heap d (F m)) = obj_id (?h m) \<and>
        children (heap d) (F m) = map F (children ?h m)" if "m \<in> snd ` set (all_models s)" for m
  proof -
    from that have "m \<in> set ?ms" by simp
    with copies have c: "H2 (F m) =
          (?h m)\<lparr>obj_props := map (\<lambda>(k, v). (k, rename_models F v)) (obj_props (?h m))\<rparr>"
      by blast
    then have "obj_props (H2 (F m)) = map (\<lambda>(k, v). (k, rename_models F v)) (obj_props (?h m))"
      by simp
    then have "children H2 (F m) = map F (children ?h m)"
      by (rule children_renamed)
    with c heap_d show ?thesis by simp
  qed
  moreover have "self_ref d = doc" "roots d = map F (roots s)"
    using d d1 by (simp_all add: Document_init_def)
  moreover have "all_models d = fold (\<lambda>m a. AList.update (obj_id (heap d m)) m a)
                  (union_references refs (heap d) (roots d)) []"
    using d d1(5) by simp
  ultimately show ?thesis
    using res d(1) by blast
qed

end
